theory Spec2Isabelle
  imports Main
begin

section \<open>JSON:API router of fastapi-rest-framework\<close>

text \<open>
  A shallow embedding of \<^verbatim>\<open>fastapi_rest_framework/routers/json_api_router.py\<close>:
  the document assembler \<^verbatim>\<open>JSONAPIResourceRouter.build_response\<close>, the inclusion parser
  \<^verbatim>\<open>JSONAPIResourceRouter.get_resource\<close>, the schema closure
  \<^verbatim>\<open>get_schemas_from_relationships\<close> and the validation pattern \<^verbatim>\<open>include_query\<close>.
\<close>

subsection \<open>Data model\<close>

text \<open>
  The \<^verbatim>\<open>id\<close> of a row or of a related object, as the code reads it: a Python value that
  is a string, an integer (the two types the router declares for an id) or \<^verbatim>\<open>None\<close>,
  the id of an object that has none yet. Values of different types are different dictionary
  keys: \<^verbatim>\<open>7\<close> and \<^verbatim>\<open>"7"\<close> are not equal.
\<close>

datatype py_id = IdStr string | IdInt int | IdNone

text \<open>
  A row (and a related object) is a model instance: the code reads its \<^verbatim>\<open>id\<close> and
  otherwise passes it on whole; \<open>'f\<close> stands for the remaining fields.
\<close>

record 'f base_model =
  model_id :: py_id
  model_fields :: 'f

text \<open>
  \<^verbatim>\<open>class JAResource(GenericModel, Generic[TRead, TName])\<close> with its three fields
  \<^verbatim>\<open>id: str\<close>, \<^verbatim>\<open>type\<close> and \<^verbatim>\<open>attributes\<close>.
\<close>

record 'f JAResource =
  ja_id :: string
  ja_type :: string
  ja_attributes :: "'f base_model"

text \<open>
  \<^verbatim>\<open>JAResponseSingle\<close> and \<^verbatim>\<open>JAResponseList\<close>: two classes with the fields
  \<^verbatim>\<open>data\<close> and \<^verbatim>\<open>included\<close>; \<^verbatim>\<open>data\<close> is one resource object in the first
  and a list of them in the second.
\<close>

datatype 'f ja_response =
    JAResponseSingle (data_single: "'f JAResource") (included: "'f JAResource list")
  | JAResponseList (data_list: "'f JAResource list") (included: "'f JAResource list")

text \<open>
  What \<^verbatim>\<open>build_response\<close> reads of a resource. The class \<^verbatim>\<open>Resource\<close> is not part of
  the file; its members are taken as parameters. \<open>name\<close> is \<^verbatim>\<open>resource.name\<close>,
  \<open>Read_from_orm\<close> is \<^verbatim>\<open>resource.Read.from_orm\<close>, \<open>inclusions\<close> is
  \<^verbatim>\<open>resource.inclusions\<close> and \<open>get_related\<close> is \<^verbatim>\<open>resource.get_related\<close>. The two
  calls may raise: an exception is a value \<open>Inl e\<close> of type \<open>'e\<close>.
\<close>

record ('f, 'e) resource_class =
  name :: string
  Read_from_orm :: "'f base_model \<Rightarrow> 'e + 'f base_model"

text \<open>A selected object: \<^verbatim>\<open>selected_obj.obj\<close> and \<^verbatim>\<open>selected_obj.resource\<close>.\<close>

record ('f, 'e) selected_obj =
  obj :: "'f base_model"
  resource :: "('f, 'e) resource_class"

type_synonym inclusion = "string list"

record ('f, 'e) resource_inst = "('f, 'e) resource_class" +
  inclusions :: "inclusion list"
  get_related :: "'f base_model \<Rightarrow> inclusion \<Rightarrow> 'e + ('f, 'e) selected_obj list"

text \<open>
  The argument \<^verbatim>\<open>rows: Union[BaseModel, list[BaseModel]]\<close>; \<^verbatim>\<open>isinstance(rows, list)\<close>
  tells the two apart.
\<close>

datatype 'f rows_arg = Row "'f base_model" | Rows "'f base_model list"

fun is_list :: "'f rows_arg \<Rightarrow> bool" where
  "is_list (Row r) = False"
| "is_list (Rows rs) = True"

fun as_list :: "'f rows_arg \<Rightarrow> 'f base_model list" where
  "as_list (Row r) = [r]"
| "as_list (Rows rs) = rs"

text \<open>
  What a call of \<^verbatim>\<open>build_response\<close> can raise: the \<^verbatim>\<open>ValidationError\<close> of the
  constructor of \<^verbatim>\<open>JAResource\<close>, an exception of one of the two collaborator calls, which
  it does not catch, or the \<^verbatim>\<open>IndexError\<close> of \<^verbatim>\<open>data[0]\<close>.
\<close>

datatype 'e raised = IndexError | ValidationError | Collaborator 'e

subsection \<open>The constructor of JAResource\<close>

text \<open>\<^verbatim>\<open>str(n)\<close> for an integer: its decimal digits, after a minus sign when negative.\<close>

fun str_nat :: "nat \<Rightarrow> string" where
  "str_nat n =
     (if n < 10 then [''0123456789'' ! n]
      else str_nat (n div 10) @ [''0123456789'' ! (n mod 10)])"

definition str_int :: "int \<Rightarrow> string" where
  "str_int i = (if i < 0 then CHR ''-'' # str_nat (nat (- i)) else str_nat (nat i))"

text \<open>
  The validation of a field declared \<^verbatim>\<open>str\<close> (pydantic, version 1): a string is kept, an
  integer is converted with \<^verbatim>\<open>str\<close>, \<^verbatim>\<open>None\<close> is refused (\<open>None\<close> here), which makes
  the constructor raise \<^verbatim>\<open>ValidationError\<close>.
\<close>

definition validate_str :: "py_id \<Rightarrow> string option" where
  "validate_str v =
     (case v of
        IdStr s \<Rightarrow> Some s
      | IdInt i \<Rightarrow> Some (str_int i)
      | IdNone \<Rightarrow> None)"

text \<open>
  \<^verbatim>\<open>JAResource(id=..., type=..., attributes=...)\<close>: the id is validated as a string; the
  type is a string already and the attributes are a model instance already, and both are
  kept.
\<close>

definition JAResource_init ::
  "py_id \<Rightarrow> string \<Rightarrow> 'f base_model \<Rightarrow> 'e raised + 'f JAResource" where
  "JAResource_init id_arg type_arg attributes_arg =
     (case validate_str id_arg of
        None \<Rightarrow> Inl ValidationError
      | Some s \<Rightarrow> Inr \<lparr>ja_id = s, ja_type = type_arg, ja_attributes = attributes_arg\<rparr>)"

subsection \<open>The dictionary of included resources\<close>

text \<open>
  A Python \<^verbatim>\<open>dict\<close> keeps its keys in insertion order. \<^verbatim>\<open>d[k] = v\<close> replaces the value
  of a key that is present and leaves the key where it is; a new key goes to the end.
  \<^verbatim>\<open>list(d.values())\<close> lists the values in that order.
\<close>

type_synonym ('k, 'v) dict = "('k \<times> 'v) list"

fun dict_setitem :: "('k, 'v) dict \<Rightarrow> 'k \<Rightarrow> 'v \<Rightarrow> ('k, 'v) dict" where
  "dict_setitem [] k v = [(k, v)]"
| "dict_setitem ((k', v') # d) k v =
     (if k' = k then (k, v) # d else (k', v') # dict_setitem d k v)"

definition dict_values :: "('k, 'v) dict \<Rightarrow> 'v list" where
  "dict_values d = map snd d"

subsection \<open>build_response\<close>

text \<open>
  The dictionary \<^verbatim>\<open>included_resources\<close>: its keys are the pairs
  \<^verbatim>\<open>(related_resource.name, obj.id)\<close>, with the id as the object has it.
\<close>

type_synonym 'f included_resources = "(string \<times> py_id, 'f JAResource) dict"

text \<open>
  The innermost loop, \<^verbatim>\<open>for selected_obj in selected_objs\<close>: the right-hand side
  \<^verbatim>\<open>JAResource(id=obj.id, type=related_resource.name,
  attributes=related_resource.Read.from_orm(obj))\<close> is evaluated, the arguments before the
  constructor, then stored under the key \<^verbatim>\<open>(related_resource.name, obj.id)\<close>.
\<close>

fun include_selected ::
  "'f included_resources \<Rightarrow> ('f, 'e) selected_obj list \<Rightarrow> 'e raised + 'f included_resources" where
  "include_selected d [] = Inr d"
| "include_selected d (s # ss) =
     (case Read_from_orm (resource s) (obj s) of
        Inl e \<Rightarrow> Inl (Collaborator e)
      | Inr a \<Rightarrow>
          (case JAResource_init (model_id (obj s)) (name (resource s)) a of
             Inl e \<Rightarrow> Inl e
           | Inr j \<Rightarrow>
               include_selected (dict_setitem d (name (resource s), model_id (obj s)) j) ss))"

text \<open>The middle loop, \<^verbatim>\<open>for inclusion in resource.inclusions\<close>, for one row.\<close>

fun include_inclusions ::
  "('f, 'e) resource_inst \<Rightarrow> 'f base_model \<Rightarrow> 'f included_resources \<Rightarrow> inclusion list
     \<Rightarrow> 'e raised + 'f included_resources" where
  "include_inclusions res row d [] = Inr d"
| "include_inclusions res row d (inc # incs) =
     (case get_related res row inc of
        Inl e \<Rightarrow> Inl (Collaborator e)
      | Inr selected_objs \<Rightarrow>
          (case include_selected d selected_objs of
             Inl e \<Rightarrow> Inl e
           | Inr d' \<Rightarrow> include_inclusions res row d' incs))"

text \<open>The outer loop, \<^verbatim>\<open>for row in rows\<close>.\<close>

fun include_rows ::
  "('f, 'e) resource_inst \<Rightarrow> 'f included_resources \<Rightarrow> 'f base_model list
     \<Rightarrow> 'e raised + 'f included_resources" where
  "include_rows res d [] = Inr d"
| "include_rows res d (row # rows) =
     (case include_inclusions res row d (inclusions res) of
        Inl e \<Rightarrow> Inl e
      | Inr d' \<Rightarrow> include_rows res d' rows)"

text \<open>
  \<^verbatim>\<open>JAResource(id=row.id, attributes=row, type=resource.name)\<close>, the resource object of a
  primary row.
\<close>

definition primary_data ::
  "('f, 'e) resource_inst \<Rightarrow> 'f base_model \<Rightarrow> 'e raised + 'f JAResource" where
  "primary_data res row = JAResource_init (model_id row) (name res) row"

text \<open>
  A list comprehension over fallible steps, and any other run of them over a list: the
  steps are made in order and the first exception ends the run.
\<close>

fun traverse :: "('a \<Rightarrow> 'e + 'b) \<Rightarrow> 'a list \<Rightarrow> 'e + 'b list" where
  "traverse f [] = Inr []"
| "traverse f (x # xs) =
     (case f x of
        Inl e \<Rightarrow> Inl e
      | Inr y \<Rightarrow> (case traverse f xs of Inl e \<Rightarrow> Inl e | Inr ys \<Rightarrow> Inr (y # ys)))"

text \<open>
  \<^verbatim>\<open>build_response(self, rows, resource)\<close>: the three loops fill
  \<^verbatim>\<open>included_resources\<close>, then \<^verbatim>\<open>data\<close> is built from the rows, one constructor call
  for each, and the response class is chosen by \<^verbatim>\<open>many\<close>.
\<close>

definition build_response ::
  "'f rows_arg \<Rightarrow> ('f, 'e) resource_inst \<Rightarrow> 'e raised + 'f ja_response" where
  "build_response rows res =
     (let many = is_list rows;
          rows' = as_list rows
      in case include_rows res [] rows' of
           Inl e \<Rightarrow> Inl e
         | Inr included_resources \<Rightarrow>
             (case traverse (primary_data res) rows' of
                Inl e \<Rightarrow> Inl e
              | Inr data \<Rightarrow>
                  if many then Inr (JAResponseList data (dict_values included_resources))
                  else (case data of
                          [] \<Rightarrow> Inl IndexError
                        | d0 # _ \<Rightarrow>
                            Inr (JAResponseSingle d0 (dict_values included_resources)))))"

subsection \<open>get_resource\<close>

text \<open>
  Python's \<^verbatim>\<open>str.split(sep)\<close> with a separator of one character: the pieces between the
  separators, empty pieces kept, so that \<^verbatim>\<open>"".split(",")\<close> is \<^verbatim>\<open>[""]\<close> and
  \<^verbatim>\<open>"a..b".split(".")\<close> is \<^verbatim>\<open>["a", "", "b"]\<close>.
\<close>

fun split :: "char \<Rightarrow> string \<Rightarrow> string list" where
  "split sep [] = [[]]"
| "split sep (c # cs) =
     (if c = sep then [] # split sep cs
      else (case split sep cs of
              [] \<Rightarrow> [[c]]
            | p # ps \<Rightarrow> (c # p) # ps))"

text \<open>
  Modelled from the spec: the constructor of \<^verbatim>\<open>Resource\<close>, called as
  \<^verbatim>\<open>self.resource_class(inclusions=inclusions)\<close>, is not part of the file. By section 4.4
  of the specification the resolver works on the requested inclusion paths, so the instance
  carries the list it was made with. The first argument stands for the class: its name, its
  read projection and its \<^verbatim>\<open>get_related\<close>.
\<close>

definition resource_init ::
  "('f, 'e) resource_inst \<Rightarrow> inclusion list \<Rightarrow> ('f, 'e) resource_inst" where
  "resource_init cls incs = cls\<lparr>inclusions := incs\<rparr>"

text \<open>
  \<^verbatim>\<open>get_resource(self, request)\<close>. The request is its \<^verbatim>\<open>query_params\<close>, a mapping from
  parameter names to strings. \<^verbatim>\<open>if include:\<close> is false for \<^verbatim>\<open>None\<close> and for the empty
  string.
\<close>

definition get_resource ::
  "('f, 'e) resource_inst \<Rightarrow> (string \<rightharpoonup> string) \<Rightarrow> ('f, 'e) resource_inst" where
  "get_resource resource_class query_params =
     (let include = query_params ''include''
      in resource_init resource_class
           (case include of
              None \<Rightarrow> []
            | Some s \<Rightarrow>
                if s = [] then []
                else map (split (CHR ''.'')) (split (CHR '','') s)))"

subsection \<open>The discoveries of a call, one after the other\<close>

text \<open>
  The primary rows that a call is about: the row of a call with a single row, the rows of a
  call with a list. It is stated apart from the code's own normalisation of the argument.
\<close>

fun given_rows :: "'f rows_arg \<Rightarrow> 'f base_model list" where
  "given_rows (Row row) = [row]"
| "given_rows (Rows rs) = rs"

text \<open>
  One discovery: the key and the resource object that the body of the innermost loop stores
  for a selected object, or the exception it raises.
\<close>

definition ja_entry ::
  "('f, 'e) selected_obj \<Rightarrow> 'e raised + ((string \<times> py_id) \<times> 'f JAResource)" where
  "ja_entry s =
     (case Read_from_orm (resource s) (obj s) of
        Inl e \<Rightarrow> Inl (Collaborator e)
      | Inr a \<Rightarrow>
          (case JAResource_init (model_id (obj s)) (name (resource s)) a of
             Inl e \<Rightarrow> Inl e
           | Inr j \<Rightarrow> Inr ((name (resource s), model_id (obj s)), j)))"

text \<open>
  The discoveries of one pair of a primary row and a whole inclusion path: one call of
  \<^verbatim>\<open>get_related\<close> with the row and the path as parsed, then one discovery for each
  selected object it returns.
\<close>

definition related_entries ::
  "('f, 'e) resource_inst \<Rightarrow> 'f base_model \<times> inclusion
     \<Rightarrow> 'e raised + ((string \<times> py_id) \<times> 'f JAResource) list" where
  "related_entries res call =
     (case get_related res (fst call) (snd call) of
        Inl e \<Rightarrow> Inl (Collaborator e)
      | Inr selected_objs \<Rightarrow> traverse ja_entry selected_objs)"

text \<open>
  All discoveries of a run over a list of primary rows, in the order of the iteration: rows
  outermost, inclusion paths next, selected objects innermost.
\<close>

definition discoveries ::
  "('f, 'e) resource_inst \<Rightarrow> 'f base_model list
     \<Rightarrow> 'e raised + ((string \<times> py_id) \<times> 'f JAResource) list" where
  "discoveries res rows =
     (case traverse (related_entries res) (List.product rows (inclusions res)) of
        Inl e \<Rightarrow> Inl e
      | Inr ess \<Rightarrow> Inr (concat ess))"

text \<open>Storing a sequence of discoveries in a dictionary, one assignment each.\<close>

definition store_all :: "('k, 'v) dict \<Rightarrow> ('k \<times> 'v) list \<Rightarrow> ('k, 'v) dict" where
  "store_all d es = foldl (\<lambda>d e. dict_setitem d (fst e) (snd e)) d es"

text \<open>The elements of a list in the order of their first occurrence, each once.\<close>

fun first_occurrences :: "'a list \<Rightarrow> 'a list" where
  "first_occurrences [] = []"
| "first_occurrences (x # xs) = x # removeAll x (first_occurrences xs)"

text \<open>The payload of the last discovery made under a key.\<close>

definition last_discovered :: "('k \<times> 'v) list \<Rightarrow> 'k \<Rightarrow> 'v" where
  "last_discovered es k = snd (last (filter (\<lambda>e. fst e = k) es))"

text \<open>The key of a resource object in a document: its type name and its id.\<close>

definition entry_key :: "'f JAResource \<Rightarrow> string \<times> string" where
  "entry_key j = (ja_type j, ja_id j)"

text \<open>
  The field \<^verbatim>\<open>data\<close> of a response of either class: one resource object or a list.
\<close>

definition data :: "'f ja_response \<Rightarrow> 'f JAResource + 'f JAResource list" where
  "data r = (case r of JAResponseSingle d inc \<Rightarrow> Inl d | JAResponseList ds inc \<Rightarrow> Inr ds)"

text \<open>The resource objects under \<^verbatim>\<open>data\<close>, as a list in both shapes.\<close>

definition primary_rows :: "'f ja_response \<Rightarrow> 'f JAResource list" where
  "primary_rows r = (case data r of Inl d \<Rightarrow> [d] | Inr ds \<Rightarrow> ds)"

text \<open>
  The included list computed from the calls of \<^verbatim>\<open>get_related\<close> alone, for a list of
  primary rows: one call for each pair of a row and a whole inclusion path; for every key
  (resource name, object id) in the order of first discovery, the object last discovered
  under it.
\<close>

definition included_per_pair ::
  "('f, 'e) resource_inst \<Rightarrow> 'f base_model list \<Rightarrow> 'e raised + 'f JAResource list" where
  "included_per_pair res rows =
     (case traverse (related_entries res)
             (concat (map (\<lambda>row. map (\<lambda>inc. (row, inc)) (inclusions res)) rows)) of
        Inl e \<Rightarrow> Inl e
      | Inr ess \<Rightarrow>
          Inr (map (last_discovered (concat ess)) (first_occurrences (map fst (concat ess)))))"

subsection \<open>get_schemas_from_relationships\<close>

text \<open>
  Modelled from the spec: the types \<^verbatim>\<open>Relationships\<close>, \<^verbatim>\<open>RelationshipInfo\<close> and
  \<^verbatim>\<open>SchemaWithRelationships\<close> come from \<^verbatim>\<open>resources/base_resource.py\<close>, which is not part
  of the file. By sections 2 and 3 of the specification the relationships form a directed
  graph over resource schemas: a resource type has one mapping from relationship names to
  relationship descriptors, and a descriptor names the related resource type. So
  \<^verbatim>\<open>Relationships\<close> is a dictionary from names to target schemas
  (\<^verbatim>\<open>relationship_info.schema_with_relationships.schema\<close>), and the relationships of a
  target (\<^verbatim>\<open>relationship_info.schema_with_relationships.relationships\<close>) are looked up in
  the graph, a finite table from schemas to their relationships. A schema without an entry
  has no relationships. Cycles need no special form: an entry may name any schema, its own
  included.
\<close>

type_synonym 'sch relationships = "(string \<times> 'sch) list"

type_synonym 'sch schema_graph = "('sch \<times> 'sch relationships) list"

definition relationships_of :: "'sch schema_graph \<Rightarrow> 'sch \<Rightarrow> 'sch relationships" where
  "relationships_of g s = (case map_of g s of None \<Rightarrow> [] | Some rels \<Rightarrow> rels)"

text \<open>
  \<^verbatim>\<open>visited or set()\<close>: \<^verbatim>\<open>None\<close> and the empty set are false, and a new empty set is
  taken for them; a set that is not empty is kept, the same object as the caller's.
\<close>

definition visited_or_set :: "'sch set option \<Rightarrow> 'sch set" where
  "visited_or_set visited = (case visited of None \<Rightarrow> {} | Some v \<Rightarrow> if v = {} then {} else v)"

text \<open>
  \<^verbatim>\<open>get_schemas_from_relationships(relationships, visited)\<close> and its loop
  \<^verbatim>\<open>for relationship_info in relationships.values()\<close>. The set \<^verbatim>\<open>visited\<close> is mutable and
  shared with the recursive call whenever the call keeps it, so the function returns it
  along with \<^verbatim>\<open>schemas\<close>, and the loop goes on with the set as the call left it. The call
  receives the set after \<^verbatim>\<open>visited.add(schema)\<close>, which is never empty. The first
  argument bounds the depth of the recursion, as the interpreter's stack does; \<open>None\<close> is
  a call that ran out of it.
\<close>

fun get_schemas_from_relationships ::
  "nat \<Rightarrow> 'sch schema_graph \<Rightarrow> 'sch relationships \<Rightarrow> 'sch set option
     \<Rightarrow> ('sch list \<times> 'sch set) option"
and schemas_loop ::
  "nat \<Rightarrow> 'sch schema_graph \<Rightarrow> 'sch list \<Rightarrow> 'sch list \<Rightarrow> 'sch set
     \<Rightarrow> ('sch list \<times> 'sch set) option" where
  "get_schemas_from_relationships 0 g relationships visited = None"
| "get_schemas_from_relationships (Suc depth) g relationships visited =
     schemas_loop depth g (dict_values relationships) []
       (visited_or_set visited)"
| "schemas_loop depth g [] schemas visited = Some (schemas, visited)"
| "schemas_loop depth g (schema # rest) schemas visited =
     (if schema \<in> visited then schemas_loop depth g rest schemas visited
      else
        (case get_schemas_from_relationships depth g (relationships_of g schema)
                (Some (insert schema visited)) of
           None \<Rightarrow> None
         | Some (found, visited') \<Rightarrow>
             schemas_loop depth g rest (schemas @ [schema] @ found)
               (if insert schema visited = {} then insert schema visited else visited')))"

text \<open>
  The edges of the relationship graph, the schemas reachable from the targets of a
  relationship mapping (the targets themselves included), and all schemas that a graph and
  a mapping mention.
\<close>

definition edges :: "'sch schema_graph \<Rightarrow> ('sch \<times> 'sch) set" where
  "edges g = {(s, t). t \<in> set (dict_values (relationships_of g s))}"

definition reachable_schemas :: "'sch schema_graph \<Rightarrow> 'sch relationships \<Rightarrow> 'sch set" where
  "reachable_schemas g relationships = (edges g)\<^sup>* `` set (dict_values relationships)"

definition all_schemas :: "'sch schema_graph \<Rightarrow> 'sch relationships \<Rightarrow> 'sch list" where
  "all_schemas g relationships =
     dict_values relationships @ concat (map (\<lambda>entry. dict_values (snd entry)) g)"

text \<open>
  What a run of the loop establishes: the schemas it adds are new and pairwise different,
  the visited set grows by exactly them, each is reachable from a schema of the loop, the
  schemas of the loop are visited afterwards, and so are the targets of every added schema.
\<close>

definition loop_post ::
  "'sch schema_graph \<Rightarrow> 'sch list \<Rightarrow> 'sch set \<Rightarrow> 'sch list \<Rightarrow> 'sch set \<Rightarrow> bool" where
  "loop_post g todo V new V' \<longleftrightarrow>
     distinct new \<and> set new \<inter> V = {} \<and> V' = V \<union> set new \<and>
     set new \<subseteq> (edges g)\<^sup>* `` set todo \<and> set todo \<subseteq> V' \<and>
     (\<forall>x\<in>set new. edges g `` {x} \<subseteq> V')"

subsection \<open>The validation pattern include_query\<close>

text \<open>
  \<^verbatim>\<open>include_query = Query(None, regex=r"^([\w\.]+)(,[\w\.]+)*$")\<close>. Regular expressions
  are a datatype: a character class is a predicate on characters, \<open>Alt\<close> is needed for
  the derivatives only. A string matches an expression when the derivative of the
  expression by the characters of the string, one after the other, accepts the empty string.
\<close>

datatype rexp =
    Zero
  | One
  | Atom "char \<Rightarrow> bool"
  | Alt rexp rexp
  | Times rexp rexp
  | Star rexp

fun nullable :: "rexp \<Rightarrow> bool" where
  "nullable Zero = False"
| "nullable One = True"
| "nullable (Atom P) = False"
| "nullable (Alt r s) = (nullable r \<or> nullable s)"
| "nullable (Times r s) = (nullable r \<and> nullable s)"
| "nullable (Star r) = True"

fun deriv :: "char \<Rightarrow> rexp \<Rightarrow> rexp" where
  "deriv c Zero = Zero"
| "deriv c One = Zero"
| "deriv c (Atom P) = (if P c then One else Zero)"
| "deriv c (Alt r s) = Alt (deriv c r) (deriv c s)"
| "deriv c (Times r s) =
     (if nullable r then Alt (Times (deriv c r) s) (deriv c s) else Times (deriv c r) s)"
| "deriv c (Star r) = Times (deriv c r) (Star r)"

fun matches :: "rexp \<Rightarrow> string \<Rightarrow> bool" where
  "matches r [] = nullable r"
| "matches r (c # cs) = matches (deriv c r) cs"

text \<open>\<^verbatim>\<open>r+\<close>: one \<open>r\<close>, then any number of them.\<close>

definition one_or_more :: "rexp \<Rightarrow> rexp" where
  "one_or_more r = Times r (Star r)"

text \<open>
  The validation calls \<^verbatim>\<open>re.match\<close>, which looks for a match that starts at the beginning
  of the string (where \<^verbatim>\<open>^\<close> holds). \<^verbatim>\<open>$\<close> holds at the end of the string and also
  just before a newline that ends the string. So \<^verbatim>\<open>^r$\<close> accepts a string when
  \<open>r\<close> matches all of it, or all of it but a final newline.
\<close>

definition newline :: char where
  "newline = CHR 0x0A"

definition match_to_dollar :: "rexp \<Rightarrow> string \<Rightarrow> bool" where
  "match_to_dollar r s =
     (matches r s \<or> (case rev s of [] \<Rightarrow> False | c # m \<Rightarrow> c = newline \<and> matches r (rev m)))"

text \<open>
  \<^verbatim>\<open>\w\<close> in a pattern for \<^verbatim>\<open>str\<close>: the letters and digits of ASCII and the underscore,
  and beyond ASCII the characters that Unicode counts as alphanumeric. The Unicode tables
  are not part of the repository: they are the parameter \<open>unicode_word\<close>. A character of
  the model is a code point below 256.
\<close>

definition word_char :: "(char \<Rightarrow> bool) \<Rightarrow> char \<Rightarrow> bool" where
  "word_char unicode_word c =
     (let n = (of_char c :: nat)
      in if n < 128
         then (48 \<le> n \<and> n \<le> 57) \<or> (65 \<le> n \<and> n \<le> 90) \<or> (97 \<le> n \<and> n \<le> 122) \<or> n = 95
         else unicode_word c)"

definition word_or_dot :: "(char \<Rightarrow> bool) \<Rightarrow> char \<Rightarrow> bool" where
  "word_or_dot unicode_word c = (word_char unicode_word c \<or> c = CHR ''.'')"

text \<open>The pattern between \<^verbatim>\<open>^\<close> and \<^verbatim>\<open>$\<close>, group by group.\<close>

definition include_query :: "(char \<Rightarrow> bool) \<Rightarrow> rexp" where
  "include_query unicode_word =
     Times (one_or_more (Atom (word_or_dot unicode_word)))
           (Star (Times (Atom (\<lambda>c. c = CHR '','')) (one_or_more (Atom (word_or_dot unicode_word)))))"

text \<open>The strings that pass the validation of the query parameter.\<close>

definition include_accepted :: "(char \<Rightarrow> bool) \<Rightarrow> string \<Rightarrow> bool" where
  "include_accepted unicode_word s = match_to_dollar (include_query unicode_word) s"

text \<open>
  The language of a regular expression, as sets of strings: the meaning that the matcher
  is proved to decide.
\<close>

inductive_set star :: "string set \<Rightarrow> string set" for A :: "string set" where
  star_empty: "[] \<in> star A"
| star_step: "u \<in> A \<Longrightarrow> v \<in> star A \<Longrightarrow> u @ v \<in> star A"

definition conc :: "string set \<Rightarrow> string set \<Rightarrow> string set" where
  "conc A B = {u @ v | u v. u \<in> A \<and> v \<in> B}"

fun lang :: "rexp \<Rightarrow> string set" where
  "lang Zero = {}"
| "lang One = {[]}"
| "lang (Atom P) = {[c] | c. P c}"
| "lang (Alt r s) = lang r \<union> lang s"
| "lang (Times r s) = conc (lang r) (lang s)"
| "lang (Star r) = star (lang r)"

text \<open>The pieces of a string put together again, the separator between them.\<close>

fun join :: "char \<Rightarrow> string list \<Rightarrow> string" where
  "join sep [] = []"
| "join sep [p] = p"
| "join sep (p # q # ps) = p @ sep # join sep (q # ps)"

text \<open>
  A comma-separated list of paths as the pattern sees it: every piece between commas is
  not empty and made of word characters and dots.
\<close>

definition paths_ok :: "(char \<Rightarrow> bool) \<Rightarrow> string \<Rightarrow> bool" where
  "paths_ok unicode_word m \<longleftrightarrow>
     list_all (\<lambda>p. p \<noteq> [] \<and> list_all (word_or_dot unicode_word) p) (split (CHR '','') m)"

subsection \<open>Example data\<close>

text \<open>
  The resources of the end-to-end example of the specification: a post whose author has a
  publisher. The path \<^verbatim>\<open>editor\<close> leads to the author's row in a later state, under the
  same id; \<^verbatim>\<open>coauthor\<close> leads to an author whose id is the string \<^verbatim>\<open>"7"\<close> where the
  others have the integer 7; \<^verbatim>\<open>broken\<close> makes the collaborator raise; any other path
  selects nothing.
\<close>

type_synonym fields = "(string \<times> string) list"

definition read_only :: "string list \<Rightarrow> fields base_model \<Rightarrow> string + fields base_model" where
  "read_only keep m = Inr (m\<lparr>model_fields := filter (\<lambda>kv. fst kv \<in> set keep) (model_fields m)\<rparr>)"

definition Author :: "(fields, string) resource_class" where
  "Author = \<lparr>name = ''author'', Read_from_orm = read_only [''name'']\<rparr>"

definition Publisher :: "(fields, string) resource_class" where
  "Publisher = \<lparr>name = ''publisher'', Read_from_orm = read_only [''name'']\<rparr>"

definition post1 :: "fields base_model" where
  "post1 = \<lparr>model_id = IdInt 1, model_fields = [(''title'', ''Hello''), (''draft'', ''yes'')]\<rparr>"

definition post2 :: "fields base_model" where
  "post2 = \<lparr>model_id = IdInt 2, model_fields = [(''title'', ''Again''), (''draft'', ''no'')]\<rparr>"

definition unsaved_post :: "fields base_model" where
  "unsaved_post = \<lparr>model_id = IdNone, model_fields = [(''title'', ''New''), (''draft'', ''yes'')]\<rparr>"

definition author7 :: "fields base_model" where
  "author7 = \<lparr>model_id = IdInt 7, model_fields = [(''name'', ''Ann'')]\<rparr>"

definition author7_later :: "fields base_model" where
  "author7_later = \<lparr>model_id = IdInt 7, model_fields = [(''name'', ''Ann B.'')]\<rparr>"

definition author7_str :: "fields base_model" where
  "author7_str = \<lparr>model_id = IdStr ''7'', model_fields = [(''name'', ''Ann'')]\<rparr>"

definition pub3 :: "fields base_model" where
  "pub3 = \<lparr>model_id = IdInt 3, model_fields = [(''name'', ''Press'')]\<rparr>"

definition post_related ::
  "fields base_model \<Rightarrow> inclusion \<Rightarrow> string + (fields, string) selected_obj list" where
  "post_related row inc =
     (if inc = [''author''] then Inr [\<lparr>obj = author7, resource = Author\<rparr>]
      else if inc = [''author'', ''publisher''] then Inr [\<lparr>obj = pub3, resource = Publisher\<rparr>]
      else if inc = [''editor''] then Inr [\<lparr>obj = author7_later, resource = Author\<rparr>]
      else if inc = [''coauthor''] then Inr [\<lparr>obj = author7_str, resource = Author\<rparr>]
      else if inc = [''broken''] then Inl ''lookup failed''
      else Inr [])"

definition Post :: "(fields, string) resource_inst" where
  "Post = \<lparr>name = ''post'', Read_from_orm = read_only [''title''],
           inclusions = [], get_related = post_related\<rparr>"

definition requested :: "inclusion list" where
  "requested = [[''author''], [''author'', ''publisher''], [''editor'']]"

text \<open>
  A collaborator that answers the whole path \<^verbatim>\<open>author.publisher\<close> as \<open>post_related\<close>
  does and raises on every other path, the prefix \<^verbatim>\<open>author\<close> and the suffix
  \<^verbatim>\<open>publisher\<close> included.
\<close>

definition whole_path_only ::
  "fields base_model \<Rightarrow> inclusion \<Rightarrow> string + (fields, string) selected_obj list" where
  "whole_path_only row inc =
     (if inc = [''author'', ''publisher''] then post_related row inc else Inl ''not called'')"

text \<open>
  A graph with the cycle A, B, A, a relationship of A to itself, a leaf C and a schema D
  that nothing leads to.
\<close>

definition cyclic_graph :: "string schema_graph" where
  "cyclic_graph =
     [(''A'', [(''b'', ''B''), (''self'', ''A'')]),
      (''B'', [(''a'', ''A''), (''c'', ''C'')]),
      (''C'', []),
      (''D'', [(''a'', ''A'')])]"

text \<open>An interpretation of \<open>unicode_word\<close> for the examples: no character beyond ASCII.\<close>

definition ascii_only :: "char \<Rightarrow> bool" where
  "ascii_only c = False"

section \<open>Properties\<close>

subsection \<open>The loops of build_response compute the stored discoveries\<close>

declare str_nat.simps [simp del]

lemma traverse_append:
  "traverse f (xs @ ys) =
     (case traverse f xs of
        Inl e \<Rightarrow> Inl e
      | Inr us \<Rightarrow> (case traverse f ys of Inl e \<Rightarrow> Inl e | Inr vs \<Rightarrow> Inr (us @ vs)))"
  by (induction xs) (auto split: sum.splits)

lemma traverse_InrD:
  "traverse f xs = Inr ys \<Longrightarrow> y \<in> set ys \<Longrightarrow> \<exists>x\<in>set xs. f x = Inr y"
  by (induction xs arbitrary: ys) (auto split: sum.splits)

lemma traverse_Inr_iff: "traverse f xs = Inr ys \<longleftrightarrow> map f xs = map Inr ys"
proof (induction xs arbitrary: ys)
  case Nil
  show ?case by auto
next
  case (Cons x xs)
  show ?case
  proof (cases ys)
    case Nil
    then show ?thesis by (auto split: sum.splits)
  next
    case (Cons y ys')
    then show ?thesis using Cons.IH[of ys'] by (auto split: sum.splits)
  qed
qed

lemma traverse_InlD:
  "traverse f xs = Inl e \<Longrightarrow> \<exists>x\<in>set xs. f x = Inl e"
  by (induction xs) (auto split: sum.splits)

lemma traverse_cong:
  "(\<And>x. x \<in> set xs \<Longrightarrow> f x = g x) \<Longrightarrow> traverse f xs = traverse g xs"
  by (induction xs) (auto split: sum.splits)

lemma include_selected_traverse:
  "include_selected d ss =
     (case traverse ja_entry ss of Inl e \<Rightarrow> Inl e | Inr es \<Rightarrow> Inr (store_all d es))"
  by (induction ss arbitrary: d) (auto simp: ja_entry_def store_all_def split: sum.splits)

lemma store_all_append: "store_all d (es @ fs) = store_all (store_all d es) fs"
  by (simp add: store_all_def)

lemma include_inclusions_traverse:
  "include_inclusions res row d incs =
     (case traverse (related_entries res) (map (Pair row) incs) of
        Inl e \<Rightarrow> Inl e
      | Inr ess \<Rightarrow> Inr (store_all d (concat ess)))"
proof (induction incs arbitrary: d)
  case Nil
  show ?case by (simp add: store_all_def)
next
  case (Cons inc incs)
  show ?case
    by (simp add: Cons.IH related_entries_def include_selected_traverse store_all_append
             split: sum.splits)
qed

lemma include_rows_discoveries:
  "include_rows res d rows =
     (case discoveries res rows of Inl e \<Rightarrow> Inl e | Inr es \<Rightarrow> Inr (store_all d es))"
proof (induction rows arbitrary: d)
  case Nil
  show ?case by (simp add: discoveries_def store_all_def)
next
  case (Cons row rows)
  have IH: "\<And>d. include_rows res d rows =
     (case traverse (related_entries res) (List.product rows (inclusions res)) of
        Inl e \<Rightarrow> Inl e | Inr ess \<Rightarrow> Inr (store_all d (concat ess)))"
    using Cons.IH by (simp add: discoveries_def split: sum.splits)
  show ?case
    by (simp add: IH discoveries_def include_inclusions_traverse traverse_append store_all_append
             split: sum.splits)
qed

lemma keys_setitem:
  "map fst (dict_setitem d k v) = (if k \<in> set (map fst d) then map fst d else map fst d @ [k])"
  by (induction d) force+

lemma first_occurrences_set [simp]: "set (first_occurrences xs) = set xs"
  by (induction xs) auto

lemma first_occurrences_distinct [simp]: "distinct (first_occurrences xs)"
  by (induction xs) (auto simp: distinct_removeAll)

lemma first_occurrences_snoc:
  "first_occurrences (xs @ [k]) =
     (if k \<in> set xs then first_occurrences xs else first_occurrences xs @ [k])"
  by (induction xs) auto

lemma keys_store_all:
  "map fst (store_all [] es) = first_occurrences (map fst es)"
proof (induction es rule: rev_induct)
  case Nil
  show ?case by (simp add: store_all_def)
next
  case (snoc e es)
  have "set (map fst (store_all [] es)) = set (map fst es)"
    by (simp only: snoc.IH first_occurrences_set)
  then show ?case
    using snoc.IH by (simp add: store_all_append first_occurrences_snoc keys_setitem)
      (simp add: store_all_def keys_setitem)
qed

lemma distinct_keys_store_all: "distinct (map fst (store_all [] es))"
  by (simp add: keys_store_all)

lemma map_of_setitem: "map_of (dict_setitem d k v) = (map_of d)(k \<mapsto> v)"
  by (induction d) auto

lemma map_of_store_all: "map_of (store_all d es) = map_of d ++ map_of (rev es)"
  by (induction es arbitrary: d) (auto simp: store_all_def map_of_setitem)

lemma set_setitem: "set (dict_setitem d k v) \<subseteq> insert (k, v) (set d)"
  by (induction d) (auto split: if_splits)

lemma set_store_all: "set (store_all d es) \<subseteq> set d \<union> set es"
proof (induction es arbitrary: d)
  case Nil
  show ?case by (simp add: store_all_def)
next
  case (Cons e es)
  have "store_all d (e # es) = store_all (dict_setitem d (fst e) (snd e)) es"
    by (simp add: store_all_def)
  with Cons.IH[of "dict_setitem d (fst e) (snd e)"] set_setitem[of d "fst e" "snd e"]
  show ?case by auto
qed

lemma map_of_rev_last_discovered:
  "map_of (rev es) k = Some v \<Longrightarrow> last_discovered es k = v"
proof (induction es rule: rev_induct)
  case Nil
  then show ?case by simp
next
  case (snoc x xs)
  then show ?case by (cases x) (auto simp: last_discovered_def split: if_splits)
qed

lemma values_by_key:
  "(\<And>e. e \<in> set d \<Longrightarrow> f (fst e) = snd e) \<Longrightarrow> map snd d = map f (map fst d)"
  by (induction d) auto

lemma values_store_all:
  "dict_values (store_all [] es) = map (last_discovered es) (first_occurrences (map fst es))"
proof -
  let ?d = "store_all [] es"
  have dist: "distinct (map fst ?d)" by (rule distinct_keys_store_all)
  have "map snd ?d = map (last_discovered es) (map fst ?d)"
  proof (rule values_by_key)
    fix e assume e: "e \<in> set ?d"
    have "map_of ?d (fst e) = Some (snd e)"
      using map_of_is_SomeI[OF dist, of "fst e" "snd e"] e by simp
    then have "map_of (rev es) (fst e) = Some (snd e)" by (simp add: map_of_store_all)
    then show "last_discovered es (fst e) = snd e" by (rule map_of_rev_last_discovered)
  qed
  then show ?thesis by (simp add: dict_values_def keys_store_all)
qed

lemma given_rows_as_list: "given_rows rows = as_list rows"
  by (cases rows) simp_all

lemma build_response_Row:
  "build_response (Row row) res =
     (case discoveries res [row] of
        Inl e \<Rightarrow> Inl e
      | Inr es \<Rightarrow>
          (case primary_data res row of
             Inl e \<Rightarrow> Inl e
           | Inr d \<Rightarrow> Inr (JAResponseSingle d (dict_values (store_all [] es)))))"
  by (simp add: build_response_def include_rows_discoveries split: sum.splits)

lemma build_response_Rows:
  "build_response (Rows rs) res =
     (case discoveries res rs of
        Inl e \<Rightarrow> Inl e
      | Inr es \<Rightarrow>
          (case traverse (primary_data res) rs of
             Inl e \<Rightarrow> Inl e
           | Inr ds \<Rightarrow> Inr (JAResponseList ds (dict_values (store_all [] es)))))"
  by (simp add: build_response_def include_rows_discoveries split: sum.splits)

lemma build_response_InrD:
  assumes "build_response rows res = Inr r"
  obtains es ds where "discoveries res (as_list rows) = Inr es"
    and "include_rows res [] (as_list rows) = Inr (store_all [] es)"
    and "traverse (primary_data res) (as_list rows) = Inr ds"
    and "included r = dict_values (store_all [] es)"
    and "primary_rows r = ds"
proof (cases rows)
  case (Row row)
  with assms show ?thesis
    by (auto simp: build_response_Row include_rows_discoveries primary_rows_def data_def
          split: sum.splits intro: that)
next
  case (Rows rs)
  with assms show ?thesis
    by (auto simp: build_response_Rows include_rows_discoveries primary_rows_def data_def
          split: sum.splits intro: that)
qed

lemma JAResource_init_InrD:
  "JAResource_init i t a = Inr j \<Longrightarrow>
     validate_str i = Some (ja_id j) \<and> ja_type j = t \<and> ja_attributes j = a"
  by (auto simp: JAResource_init_def split: option.splits)

lemma JAResource_init_InlD:
  "JAResource_init i t a = Inl e \<Longrightarrow> e = ValidationError \<and> i = IdNone"
  by (auto simp: JAResource_init_def validate_str_def split: option.splits py_id.splits)

lemma JAResource_init_returns:
  "i \<noteq> IdNone \<Longrightarrow> \<exists>j. JAResource_init i t a = Inr j"
  by (cases i) (auto simp: JAResource_init_def validate_str_def)

lemma ja_entry_InrD:
  "ja_entry s = Inr e \<Longrightarrow>
     fst e = (name (resource s), model_id (obj s)) \<and>
     validate_str (model_id (obj s)) = Some (ja_id (snd e)) \<and>
     ja_type (snd e) = name (resource s) \<and>
     Read_from_orm (resource s) (obj s) = Inr (ja_attributes (snd e))"
  by (auto simp: ja_entry_def split: sum.splits dest: JAResource_init_InrD)

lemma discoveries_origin:
  assumes "discoveries res rows = Inr es" and "e \<in> set es"
  shows "\<exists>row\<in>set rows. \<exists>inc\<in>set (inclusions res). \<exists>sels.
           get_related res row inc = Inr sels \<and> (\<exists>s\<in>set sels. ja_entry s = Inr e)"
proof -
  from assms obtain ess where ess: "traverse (related_entries res) (List.product rows (inclusions res)) = Inr ess"
    and es: "es = concat ess"
    by (auto simp: discoveries_def split: sum.splits)
  from assms(2) es obtain part where part: "part \<in> set ess" and e: "e \<in> set part" by auto
  from traverse_InrD[OF ess part] obtain call
    where call: "call \<in> set (List.product rows (inclusions res))"
      and rel: "related_entries res call = Inr part" by blast
  from rel obtain sels where sels: "get_related res (fst call) (snd call) = Inr sels"
    and tr: "traverse ja_entry sels = Inr part"
    by (auto simp: related_entries_def split: sum.splits)
  from traverse_InrD[OF tr e] obtain s where s: "s \<in> set sels" "ja_entry s = Inr e" by blast
  obtain row inc where rc: "call = (row, inc)" by (cases call)
  have "row \<in> set rows" "inc \<in> set (inclusions res)" using call rc by auto
  moreover have "get_related res row inc = Inr sels" using sels rc by simp
  ultimately show ?thesis using s by blast
qed

lemma discoveries_entry:
  assumes "discoveries res rows = Inr es" and "e \<in> set es"
  shows "ja_type (snd e) = fst (fst e) \<and> validate_str (snd (fst e)) = Some (ja_id (snd e))"
proof -
  from discoveries_origin[OF assms] obtain row inc sels s
    where "get_related res row inc = Inr sels" "s \<in> set sels" "ja_entry s = Inr e" by blast
  from ja_entry_InrD[OF this(3)] show ?thesis by simp
qed

lemmas ex_defs = read_only_def Author_def Publisher_def post1_def post2_def unsaved_post_def
  author7_def author7_later_def author7_str_def pub3_def post_related_def Post_def

lemmas run_defs = build_response_def primary_data_def JAResource_init_def validate_str_def
  str_int_def str_nat.simps dict_values_def ex_defs requested_def entry_key_def

subsection \<open>Deduplication of the included resources\<close>




text \<open>
  C2, as stated: of two discoveries of one key the first is kept. The code assigns
  \<^verbatim>\<open>included_resources[key] = ...\<close> at every discovery, which overwrites. With one post
  and the paths \<^verbatim>\<open>author\<close> and \<^verbatim>\<open>editor\<close> the author with id 7 is discovered twice,
  with different attributes, and the entry of \<^verbatim>\<open>included\<close> is the second one.
\<close>

theorem first_write_wins_counterexample:
  "discoveries (Post\<lparr>inclusions := [[''author''], [''editor'']]\<rparr>) [post1] =
     Inr [((''author'', IdInt 7), \<lparr>ja_id = ''7'', ja_type = ''author'', ja_attributes = author7\<rparr>),
          ((''author'', IdInt 7), \<lparr>ja_id = ''7'', ja_type = ''author'', ja_attributes = author7_later\<rparr>)]
   \<and> build_response (Row post1) (Post\<lparr>inclusions := [[''author''], [''editor'']]\<rparr>) =
     Inr (JAResponseSingle \<lparr>ja_id = ''1'', ja_type = ''post'', ja_attributes = post1\<rparr>
            [\<lparr>ja_id = ''7'', ja_type = ''author'', ja_attributes = author7_later\<rparr>])
   \<and> author7 \<noteq> author7_later"
  by (simp add: run_defs discoveries_def related_entries_def ja_entry_def)

text \<open>
  C2, amended: every key has one entry, at the place of the key's first discovery, and the
  entry is the resource object of the key's last discovery: a later discovery overwrites the
  payload of an earlier one (last write wins).
\<close>

theorem included_last_write_wins:
  "build_response rows res = Inr r \<Longrightarrow>
     \<exists>es. discoveries res (as_list rows) = Inr es \<and>
          included r = map (last_discovered es) (first_occurrences (map fst es))"
proof -
  assume "build_response rows res = Inr r"
  then obtain es where es: "discoveries res (as_list rows) = Inr es"
    and inc: "included r = dict_values (store_all [] es)"
    by (rule build_response_InrD)
  from es inc show ?thesis by (simp add: values_store_all)
qed

theorem included_last_write_wins_witness:
  "build_response (Row post1) (Post\<lparr>inclusions := [[''author''], [''editor'']]\<rparr>) =
     Inr (JAResponseSingle \<lparr>ja_id = ''1'', ja_type = ''post'', ja_attributes = post1\<rparr>
            [\<lparr>ja_id = ''7'', ja_type = ''author'', ja_attributes = author7_later\<rparr>])
   \<and> (\<exists>es. discoveries (Post\<lparr>inclusions := [[''author''], [''editor'']]\<rparr>) (as_list (Row post1)) = Inr es \<and>
          [\<lparr>ja_id = ''7'', ja_type = ''author'', ja_attributes = author7_later\<rparr>] =
             map (last_discovered es) (first_occurrences (map fst es)))"
proof -
  have run: "build_response (Row post1) (Post\<lparr>inclusions := [[''author''], [''editor'']]\<rparr>) =
     Inr (JAResponseSingle \<lparr>ja_id = ''1'', ja_type = ''post'', ja_attributes = post1\<rparr>
            [\<lparr>ja_id = ''7'', ja_type = ''author'', ja_attributes = author7_later\<rparr>])"
    by (simp add: run_defs)
  show ?thesis using run included_last_write_wins[OF run] by simp
qed

subsection \<open>Order of the included resources\<close>

lemma first_occurrences_append:
  "first_occurrences (xs @ ys) =
     first_occurrences xs @ filter (\<lambda>y. y \<notin> set xs) (first_occurrences ys)"
proof (induction xs)
  case Nil
  show ?case by simp
next
  case (Cons x xs)
  have "removeAll x (filter (\<lambda>y. y \<notin> set xs) zs) =
        filter (\<lambda>y. y \<noteq> x \<and> y \<notin> set xs) zs" for zs
    by (induction zs) auto
  then show ?case using Cons.IH by (simp add: conj_comms)
qed

lemma first_occurrences_position:
  assumes "keys = ks @ k # ks'" and "k \<notin> set ks"
  shows "card (set ks) < length (first_occurrences keys) \<and> first_occurrences keys ! card (set ks) = k"
proof -
  have len: "length (first_occurrences ks) = card (set ks)"
    using distinct_card[of "first_occurrences ks"] by simp
  have "first_occurrences keys =
        first_occurrences ks @ filter (\<lambda>y. y \<notin> set ks) (first_occurrences (k # ks'))"
    unfolding assms(1) by (rule first_occurrences_append)
  also have "filter (\<lambda>y. y \<notin> set ks) (first_occurrences (k # ks')) =
        k # filter (\<lambda>y. y \<notin> set ks) (removeAll k (first_occurrences ks'))"
    using assms(2) by simp
  finally have eq: "first_occurrences keys =
        first_occurrences ks @ k # filter (\<lambda>y. y \<notin> set ks) (removeAll k (first_occurrences ks'))" .
  show ?thesis unfolding eq using len by (simp add: nth_append)
qed

text \<open>
  C7. The included array lists the values of the dictionary in the order of its keys, and
  the keys, the pairs (resource name, object id) as the loops store them, are the keys of
  the discoveries in the order of their first occurrence. The position of a key is the
  number of different keys discovered before its first discovery, whatever is discovered
  afterwards: a later rediscovery does not move it. The entry at that position has the
  resource name of the key as type and the id of the key, as a string, as id.
\<close>

theorem included_first_discovered_order:
  "build_response rows res = Inr r \<Longrightarrow>
     (\<exists>es d. discoveries res (given_rows rows) = Inr es \<and>
             include_rows res [] (as_list rows) = Inr d \<and>
             included r = map snd d \<and>
             map fst d = first_occurrences (map fst es) \<and>
             (\<forall>ks k ks'. map fst es = ks @ k # ks' \<and> k \<notin> set ks \<longrightarrow>
                card (set ks) < length (included r) \<and>
                fst (d ! card (set ks)) = k \<and>
                ja_type (included r ! card (set ks)) = fst k \<and>
                validate_str (snd k) = Some (ja_id (included r ! card (set ks)))))"
proof -
  assume "build_response rows res = Inr r"
  then obtain es where es: "discoveries res (as_list rows) = Inr es"
    and d: "include_rows res [] (as_list rows) = Inr (store_all [] es)"
    and inc: "included r = dict_values (store_all [] es)"
    by (rule build_response_InrD)
  let ?d = "store_all [] es"
  have inc': "included r = map snd ?d" using inc by (simp add: dict_values_def)
  have keys: "map fst ?d = first_occurrences (map fst es)" by (rule keys_store_all)
  have ent: "\<forall>e\<in>set ?d. ja_type (snd e) = fst (fst e) \<and>
                      validate_str (snd (fst e)) = Some (ja_id (snd e))"
    using set_store_all[of "[]" es] discoveries_entry[OF es] by auto
  have pos: "\<forall>ks k ks'. map fst es = ks @ k # ks' \<and> k \<notin> set ks \<longrightarrow>
                card (set ks) < length (included r) \<and>
                fst (?d ! card (set ks)) = k \<and>
                ja_type (included r ! card (set ks)) = fst k \<and>
                validate_str (snd k) = Some (ja_id (included r ! card (set ks)))"
  proof (intro allI impI)
    fix ks k ks' assume a: "map fst es = ks @ k # ks' \<and> k \<notin> set ks"
    let ?n = "card (set ks)"
    from first_occurrences_position[of "map fst es" ks k ks'] a
    have p: "?n < length (first_occurrences (map fst es))"
      "first_occurrences (map fst es) ! ?n = k" by auto
    from p(1) have l: "?n < length ?d" using keys by (metis length_map)
    then have l': "?n < length (included r)" using inc' by simp
    have k: "fst (?d ! ?n) = k" using p(2) l keys by (metis nth_map)
    have "?d ! ?n \<in> set ?d" using l by simp
    with ent have "ja_type (snd (?d ! ?n)) = fst (fst (?d ! ?n))"
      "validate_str (snd (fst (?d ! ?n))) = Some (ja_id (snd (?d ! ?n)))" by auto
    moreover have "included r ! ?n = snd (?d ! ?n)" using inc' l by simp
    ultimately show "?n < length (included r) \<and>
                fst (?d ! ?n) = k \<and>
                ja_type (included r ! ?n) = fst k \<and>
                validate_str (snd k) = Some (ja_id (included r ! ?n))"
      using l' k by simp
  qed
  have "discoveries res (given_rows rows) = Inr es \<and>
             include_rows res [] (as_list rows) = Inr ?d \<and>
             included r = map snd ?d \<and>
             map fst ?d = first_occurrences (map fst es) \<and>
             (\<forall>ks k ks'. map fst es = ks @ k # ks' \<and> k \<notin> set ks \<longrightarrow>
                card (set ks) < length (included r) \<and>
                fst (?d ! card (set ks)) = k \<and>
                ja_type (included r ! card (set ks)) = fst k \<and>
                validate_str (snd k) = Some (ja_id (included r ! card (set ks))))"
    using es d inc' keys pos unfolding given_rows_as_list by (intro conjI)
  then show ?thesis by (intro exI)
qed

text \<open>
  The author is discovered under the integer 7 first, then the publisher, then the author
  again under the string \<^verbatim>\<open>"7"\<close>, a key of its own, then the author under the integer
  again: three keys in the order of their first discovery.
\<close>

theorem included_first_discovered_order_witness:
  "build_response (Row post1)
     (Post\<lparr>inclusions := [[''author''], [''author'', ''publisher''], [''coauthor''], [''editor'']]\<rparr>) =
     Inr (JAResponseSingle \<lparr>ja_id = ''1'', ja_type = ''post'', ja_attributes = post1\<rparr>
            [\<lparr>ja_id = ''7'', ja_type = ''author'', ja_attributes = author7_later\<rparr>,
             \<lparr>ja_id = ''3'', ja_type = ''publisher'', ja_attributes = pub3\<rparr>,
             \<lparr>ja_id = ''7'', ja_type = ''author'', ja_attributes = author7_str\<rparr>])
   \<and> (\<exists>es d. discoveries
               (Post\<lparr>inclusions := [[''author''], [''author'', ''publisher''], [''coauthor''], [''editor'']]\<rparr>)
               [post1] = Inr es \<and>
             map fst es = [(''author'', IdInt 7), (''publisher'', IdInt 3), (''author'', IdStr ''7''),
                           (''author'', IdInt 7)] \<and>
             include_rows
               (Post\<lparr>inclusions := [[''author''], [''author'', ''publisher''], [''coauthor''], [''editor'']]\<rparr>)
               [] [post1] = Inr d \<and>
             map fst d = [(''author'', IdInt 7), (''publisher'', IdInt 3), (''author'', IdStr ''7'')] \<and>
             map fst d = first_occurrences (map fst es))"
proof -
  let ?res = "Post\<lparr>inclusions := [[''author''], [''author'', ''publisher''], [''coauthor''], [''editor'']]\<rparr>"
  let ?R = "JAResponseSingle \<lparr>ja_id = ''1'', ja_type = ''post'', ja_attributes = post1\<rparr>
            [\<lparr>ja_id = ''7'', ja_type = ''author'', ja_attributes = author7_later\<rparr>,
             \<lparr>ja_id = ''3'', ja_type = ''publisher'', ja_attributes = pub3\<rparr>,
             \<lparr>ja_id = ''7'', ja_type = ''author'', ja_attributes = author7_str\<rparr>]"
  have run: "build_response (Row post1) ?res = Inr ?R"
    by (simp add: run_defs)
  from included_first_discovered_order[OF run]
  obtain es d where es: "discoveries ?res (given_rows (Row post1)) = Inr es"
    and d: "include_rows ?res [] (as_list (Row post1)) = Inr d"
    and ord: "map fst d = first_occurrences (map fst es)"
    by (elim exE conjE)
  have "discoveries ?res [post1] =
      Inr [((''author'', IdInt 7), \<lparr>ja_id = ''7'', ja_type = ''author'', ja_attributes = author7\<rparr>),
           ((''publisher'', IdInt 3), \<lparr>ja_id = ''3'', ja_type = ''publisher'', ja_attributes = pub3\<rparr>),
           ((''author'', IdStr ''7''), \<lparr>ja_id = ''7'', ja_type = ''author'', ja_attributes = author7_str\<rparr>),
           ((''author'', IdInt 7), \<lparr>ja_id = ''7'', ja_type = ''author'', ja_attributes = author7_later\<rparr>)]"
    by (simp add: run_defs discoveries_def related_entries_def ja_entry_def)
  with es have k: "map fst es = [(''author'', IdInt 7), (''publisher'', IdInt 3), (''author'', IdStr ''7''),
                           (''author'', IdInt 7)]"
    by auto
  with ord have kd: "map fst d = [(''author'', IdInt 7), (''publisher'', IdInt 3), (''author'', IdStr ''7'')]"
    by simp
  from es d k kd ord have "discoveries ?res [post1] = Inr es \<and>
             map fst es = [(''author'', IdInt 7), (''publisher'', IdInt 3), (''author'', IdStr ''7''),
                           (''author'', IdInt 7)] \<and>
             include_rows ?res [] [post1] = Inr d \<and>
             map fst d = [(''author'', IdInt 7), (''publisher'', IdInt 3), (''author'', IdStr ''7'')] \<and>
             map fst d = first_occurrences (map fst es)"
    by simp
  then have "\<exists>es d. discoveries ?res [post1] = Inr es \<and>
             map fst es = [(''author'', IdInt 7), (''publisher'', IdInt 3), (''author'', IdStr ''7''),
                           (''author'', IdInt 7)] \<and>
             include_rows ?res [] [post1] = Inr d \<and>
             map fst d = [(''author'', IdInt 7), (''publisher'', IdInt 3), (''author'', IdStr ''7'')] \<and>
             map fst d = first_occurrences (map fst es)"
    by (intro exI)
  with run show ?thesis by (intro conjI)
qed

subsection \<open>Shape and primary data of the document\<close>

lemma ja_entry_no_IndexError: "ja_entry s \<noteq> Inl IndexError"
  using JAResource_init_InlD[of _ _ _ IndexError]
  by (auto simp: ja_entry_def split: sum.splits)

lemma discoveries_no_IndexError:
  fixes res :: "('f, 'e) resource_inst"
  shows "discoveries res rs \<noteq> Inl IndexError"
proof
  assume "discoveries res rs = Inl IndexError"
  then have "traverse (related_entries res) (List.product rs (inclusions res)) = Inl IndexError"
    by (auto simp: discoveries_def split: sum.splits)
  from traverse_InlD[OF this] obtain call where "related_entries res call = Inl IndexError"
    by blast
  then obtain sels :: "('f, 'e) selected_obj list"
    where "traverse ja_entry sels = Inl IndexError"
    by (auto simp: related_entries_def split: sum.splits)
  from traverse_InlD[OF this] show False using ja_entry_no_IndexError by blast
qed

lemma primary_no_IndexError: "traverse (primary_data res) rs \<noteq> Inl IndexError"
proof
  assume "traverse (primary_data res) rs = Inl IndexError"
  from traverse_InlD[OF this] obtain row where "primary_data res row = Inl IndexError" by blast
  then show False
    using JAResource_init_InlD[of "model_id row" "name res" row IndexError]
    by (simp add: primary_data_def)
qed

text \<open>
  C5. A single row gives a single document, whose \<^verbatim>\<open>data\<close> is the resource object built
  for the row; a list of rows, of any length, gives a list document, whose \<^verbatim>\<open>data\<close>
  lists the resource objects built for the rows, one for each row and in their order. The
  \<^verbatim>\<open>IndexError\<close> of \<^verbatim>\<open>data[0]\<close> is never raised.
\<close>

theorem build_response_shape:
  "(build_response (Row row) res = Inr r \<longrightarrow> primary_data res row = Inr d \<longrightarrow> data r = Inl d) \<and>
   (build_response (Row row) res = Inr r \<longrightarrow> (\<exists>d. primary_data res row = Inr d)) \<and>
   (build_response (Rows rs) res = Inr r' \<longrightarrow>
      (\<exists>ds. data r' = Inr ds \<and> map (primary_data res) rs = map Inr ds)) \<and>
   build_response rows res \<noteq> Inl IndexError"
proof (intro conjI impI)
  assume "build_response (Row row) res = Inr r" "primary_data res row = Inr d"
  then show "data r = Inl d"
    by (auto simp: build_response_Row data_def split: sum.splits)
next
  assume "build_response (Row row) res = Inr r"
  then show "\<exists>d. primary_data res row = Inr d"
    by (auto simp: build_response_Row split: sum.splits)
next
  assume "build_response (Rows rs) res = Inr r'"
  then show "\<exists>ds. data r' = Inr ds \<and> map (primary_data res) rs = map Inr ds"
    by (auto simp: build_response_Rows data_def traverse_Inr_iff split: sum.splits)
next
  note di = discoveries_no_IndexError[of res] and p = primary_no_IndexError[of res]
  show "build_response rows res \<noteq> Inl IndexError"
  proof (cases rows)
    case (Row row)
    then show ?thesis using di[of "[row]"] p[of "[row]"]
      by (auto simp: build_response_Row split: sum.splits)
  next
    case (Rows rs)
    then show ?thesis using di[of rs] p[of rs]
      by (auto simp: build_response_Rows split: sum.splits)
  qed
qed

theorem build_response_shape_witness:
  "build_response (Row post1) Post =
     Inr (JAResponseSingle \<lparr>ja_id = ''1'', ja_type = ''post'', ja_attributes = post1\<rparr> [])
   \<and> primary_data Post post1 = Inr \<lparr>ja_id = ''1'', ja_type = ''post'', ja_attributes = post1\<rparr>
   \<and> data (JAResponseSingle \<lparr>ja_id = ''1'', ja_type = ''post'', ja_attributes = post1\<rparr> []) =
       Inl \<lparr>ja_id = ''1'', ja_type = ''post'', ja_attributes = post1\<rparr>
   \<and> build_response (Rows [post1]) Post =
     Inr (JAResponseList [\<lparr>ja_id = ''1'', ja_type = ''post'', ja_attributes = post1\<rparr>] [])
   \<and> (\<exists>ds. data (JAResponseList [\<lparr>ja_id = ''1'', ja_type = ''post'', ja_attributes = post1\<rparr>] []) = Inr ds \<and>
          map (primary_data Post) [post1] = map Inr ds)
   \<and> build_response (Rows []) Post \<noteq> Inl IndexError"
proof -
  let ?d = "\<lparr>ja_id = ''1'', ja_type = ''post'', ja_attributes = post1\<rparr>"
  have single: "build_response (Row post1) Post = Inr (JAResponseSingle ?d [])"
    by (simp add: run_defs)
  have many: "build_response (Rows [post1]) Post = Inr (JAResponseList [?d] [])"
    by (simp add: run_defs)
  have pd: "primary_data Post post1 = Inr ?d"
    by (simp add: run_defs)
  note t = build_response_shape[of post1 Post "JAResponseSingle ?d []" ?d "[post1]"
        "JAResponseList [?d] []" "Rows []"]
  from t single pd have a: "data (JAResponseSingle ?d []) = Inl ?d" by blast
  from t many have b: "\<exists>ds. data (JAResponseList [?d] []) = Inr ds \<and>
          map (primary_data Post) [post1] = map Inr ds" by blast
  from t have c: "build_response (Rows []) Post \<noteq> Inl IndexError" by blast
  from single pd a many b c show ?thesis by (intro conjI)
qed

text \<open>
  C6, as stated: the attributes of a primary resource object are the row serialized through
  the read projection of the resource. The code passes \<^verbatim>\<open>attributes=row\<close>. For the post
  of the example the read projection keeps the title only, and the attributes under
  \<^verbatim>\<open>data\<close> are the whole row.
\<close>

theorem primary_attributes_counterexample:
  "build_response (Row post1) Post =
     Inr (JAResponseSingle \<lparr>ja_id = ''1'', ja_type = ''post'', ja_attributes = post1\<rparr> [])
   \<and> Read_from_orm Post post1 = Inr \<lparr>model_id = IdInt 1, model_fields = [(''title'', ''Hello'')]\<rparr>
   \<and> post1 \<noteq> \<lparr>model_id = IdInt 1, model_fields = [(''title'', ''Hello'')]\<rparr>"
  by (simp add: run_defs)

text \<open>
  C6, amended: the resource object of a primary row has the id of the row, validated as a
  string, the name of the resource as type and the row itself, as it is, as attributes;
  \<^verbatim>\<open>build_response\<close> applies no read projection to it. Every included object has the id of
  a selected object, validated as a string, the name of that object's resource as type and
  that resource's read projection of the object as attributes.
\<close>

theorem primary_resource_fields:
  "build_response rows res = Inr r \<Longrightarrow>
     list_all2
       (\<lambda>row d. validate_str (model_id row) = Some (ja_id d) \<and> ja_type d = name res \<and>
                 ja_attributes d = row)
       (as_list rows) (primary_rows r) \<and>
     (\<forall>j\<in>set (included r).
        \<exists>row\<in>set (as_list rows). \<exists>inc\<in>set (inclusions res). \<exists>sels.
          get_related res row inc = Inr sels \<and>
          (\<exists>s\<in>set sels. validate_str (model_id (obj s)) = Some (ja_id j) \<and>
                         ja_type j = name (resource s) \<and>
                         Read_from_orm (resource s) (obj s) = Inr (ja_attributes j)))"
proof -
  assume run: "build_response rows res = Inr r"
  then obtain es ds where es: "discoveries res (as_list rows) = Inr es"
    and tr: "traverse (primary_data res) (as_list rows) = Inr ds"
    and inc: "included r = dict_values (store_all [] es)"
    and pr: "primary_rows r = ds"
    by (rule build_response_InrD)
  from tr have m: "map (primary_data res) (as_list rows) = map Inr ds"
    by (simp add: traverse_Inr_iff)
  have d: "list_all2
       (\<lambda>row d. validate_str (model_id row) = Some (ja_id d) \<and> ja_type d = name res \<and>
                 ja_attributes d = row)
       (as_list rows) ds"
  proof (rule list_all2_all_nthI)
    show "length (as_list rows) = length ds" using m by (metis length_map)
  next
    fix n assume n: "n < length (as_list rows)"
    then have "primary_data res (as_list rows ! n) = Inr (ds ! n)"
      using m by (metis length_map nth_map)
    then show "validate_str (model_id (as_list rows ! n)) = Some (ja_id (ds ! n)) \<and>
               ja_type (ds ! n) = name res \<and> ja_attributes (ds ! n) = as_list rows ! n"
      unfolding primary_data_def by (rule JAResource_init_InrD)
  qed
  have "\<exists>row\<in>set (as_list rows). \<exists>inc\<in>set (inclusions res). \<exists>sels.
          get_related res row inc = Inr sels \<and>
          (\<exists>s\<in>set sels. validate_str (model_id (obj s)) = Some (ja_id j) \<and>
                         ja_type j = name (resource s) \<and>
                         Read_from_orm (resource s) (obj s) = Inr (ja_attributes j))"
    if j: "j \<in> set (included r)" for j
  proof -
    from j inc obtain k where "(k, j) \<in> set (store_all [] es)"
      by (auto simp: dict_values_def)
    then have "(k, j) \<in> set es" using set_store_all[of "[]" es] by auto
    from discoveries_origin[OF es this] obtain row inc sels s
      where o: "row \<in> set (as_list rows)" "inc \<in> set (inclusions res)"
        "get_related res row inc = Inr sels" "s \<in> set sels" "ja_entry s = Inr (k, j)"
      by blast
    from ja_entry_InrD[OF o(5)]
    have "validate_str (model_id (obj s)) = Some (ja_id j) \<and> ja_type j = name (resource s) \<and>
                         Read_from_orm (resource s) (obj s) = Inr (ja_attributes j)"
      by simp
    with o show ?thesis by blast
  qed
  with d pr show ?thesis by simp
qed

theorem primary_resource_fields_witness:
  "build_response (Row post1) (Post\<lparr>inclusions := [[''author'']]\<rparr>) =
     Inr (JAResponseSingle \<lparr>ja_id = ''1'', ja_type = ''post'', ja_attributes = post1\<rparr>
            [\<lparr>ja_id = ''7'', ja_type = ''author'', ja_attributes = author7\<rparr>])
   \<and> list_all2
       (\<lambda>row d. validate_str (model_id row) = Some (ja_id d) \<and> ja_type d = ''post'' \<and>
                 ja_attributes d = row)
       [post1] [\<lparr>ja_id = ''1'', ja_type = ''post'', ja_attributes = post1\<rparr>]
   \<and> (\<exists>sels. get_related Post post1 [''author''] = Inr sels \<and>
          (\<exists>s\<in>set sels. validate_str (model_id (obj s)) = Some ''7'' \<and>
                         name (resource s) = ''author'' \<and>
                         Read_from_orm (resource s) (obj s) = Inr author7))"
proof -
  let ?res = "Post\<lparr>inclusions := [[''author'']]\<rparr>"
  let ?R = "JAResponseSingle \<lparr>ja_id = ''1'', ja_type = ''post'', ja_attributes = post1\<rparr>
            [\<lparr>ja_id = ''7'', ja_type = ''author'', ja_attributes = author7\<rparr>]"
  have run: "build_response (Row post1) ?res = Inr ?R"
    by (simp add: run_defs)
  from primary_resource_fields[OF run]
  have a: "list_all2
       (\<lambda>row d. validate_str (model_id row) = Some (ja_id d) \<and> ja_type d = name ?res \<and>
                 ja_attributes d = row)
       (as_list (Row post1)) (primary_rows ?R)"
    and b: "\<forall>j\<in>set (included ?R).
        \<exists>row\<in>set (as_list (Row post1)). \<exists>inc\<in>set (inclusions ?res). \<exists>sels.
          get_related ?res row inc = Inr sels \<and>
          (\<exists>s\<in>set sels. validate_str (model_id (obj s)) = Some (ja_id j) \<and>
                         ja_type j = name (resource s) \<and>
                         Read_from_orm (resource s) (obj s) = Inr (ja_attributes j))"
    by (rule conjunct1, rule conjunct2)
  from a have a': "list_all2
       (\<lambda>row d. validate_str (model_id row) = Some (ja_id d) \<and> ja_type d = ''post'' \<and>
                 ja_attributes d = row)
       [post1] [\<lparr>ja_id = ''1'', ja_type = ''post'', ja_attributes = post1\<rparr>]"
    by (simp add: Post_def primary_rows_def data_def)
  from b have b': "\<exists>sels. get_related Post post1 [''author''] = Inr sels \<and>
          (\<exists>s\<in>set sels. validate_str (model_id (obj s)) = Some ''7'' \<and>
                         name (resource s) = ''author'' \<and>
                         Read_from_orm (resource s) (obj s) = Inr author7)"
    by (simp add: Post_def) metis
  from run a' b' show ?thesis by (intro conjI)
qed

subsection \<open>Requests without inclusions, and paths that select nothing\<close>

lemma product_Nil_right: "List.product xs [] = []"
  by (induction xs) auto

lemma discoveries_no_inclusions: "inclusions res = [] \<Longrightarrow> discoveries res rows = Inr []"
  by (simp add: discoveries_def product_Nil_right)

lemma primary_data_returns: "model_id row \<noteq> IdNone \<Longrightarrow> \<exists>d. primary_data res row = Inr d"
  unfolding primary_data_def by (rule JAResource_init_returns)

lemma primary_data_raises:
  "primary_data res row = Inl e \<Longrightarrow> e = ValidationError \<and> model_id row = IdNone"
  unfolding primary_data_def by (rule JAResource_init_InlD)

lemma traverse_returns:
  "(\<And>x. x \<in> set xs \<Longrightarrow> \<exists>y. f x = Inr y) \<Longrightarrow> \<exists>ys. traverse f xs = Inr ys"
proof (induction xs)
  case Nil
  show ?case by simp
next
  case (Cons x xs)
  from Cons.prems[of x] obtain y where "f x = Inr y" by auto
  moreover from Cons.IH Cons.prems obtain ys where "traverse f xs = Inr ys" by auto
  ultimately show ?case by simp
qed

lemma primary_returns:
  "\<forall>row\<in>set rs. model_id row \<noteq> IdNone \<Longrightarrow> \<exists>ds. traverse (primary_data res) rs = Inr ds"
  by (rule traverse_returns) (simp add: primary_data_returns)

lemma primary_raises:
  "traverse (primary_data res) rs = Inl e \<Longrightarrow>
     e = ValidationError \<and> (\<exists>row\<in>set rs. model_id row = IdNone)"
  by (drule traverse_InlD) (auto dest: primary_data_raises)

lemma build_response_no_inclusions:
  assumes "inclusions res = []"
  shows "build_response (Row row) res =
           (case primary_data res row of Inl e \<Rightarrow> Inl e | Inr d \<Rightarrow> Inr (JAResponseSingle d []))"
    and "build_response (Rows rs) res =
           (case traverse (primary_data res) rs of
              Inl e \<Rightarrow> Inl e | Inr ds \<Rightarrow> Inr (JAResponseList ds []))"
  by (simp_all add: build_response_Row build_response_Rows discoveries_no_inclusions[OF assms]
        store_all_def dict_values_def split: sum.splits)

lemma build_response_no_inclusions_cases:
  assumes "inclusions res = []"
  shows "(\<forall>r. build_response rows res = Inr r \<longrightarrow> included r = []) \<and>
         (\<forall>e. build_response rows res = Inl e \<longrightarrow> e = ValidationError) \<and>
         ((\<forall>row\<in>set (as_list rows). model_id row \<noteq> IdNone) \<longrightarrow>
            (\<exists>r. build_response rows res = Inr r \<and> included r = []))"
proof (cases rows)
  case (Row row)
  show ?thesis
    using primary_data_returns[of row res] primary_data_raises[of res row]
    by (auto simp: Row build_response_no_inclusions(1)[OF assms] split: sum.splits)
next
  case (Rows rs)
  show ?thesis
    using primary_returns[of rs res] primary_raises[of res rs]
    by (auto simp: Rows build_response_no_inclusions(2)[OF assms] split: sum.splits)
qed

lemma build_response_data:
  fixes res res' :: "('f, 'e) resource_inst"
  assumes "build_response rows res = Inr r" and "build_response rows res' = Inr r'"
    and "name res' = name res"
  shows "data r' = data r"
proof -
  have "primary_data res' = primary_data res"
    by (rule ext) (simp add: primary_data_def assms(3))
  with assms(1,2) show ?thesis
    by (cases rows)
       (auto simp: build_response_Row build_response_Rows data_def split: sum.splits)
qed

lemma build_response_returns_without_inclusions:
  fixes res res' :: "('f, 'e) resource_inst"
  assumes "build_response rows res = Inr r" and "inclusions res' = []" and "name res' = name res"
  shows "\<exists>r'. build_response rows res' = Inr r'"
proof -
  have pd: "primary_data res' = primary_data res"
    by (rule ext) (simp add: primary_data_def assms(3))
  show ?thesis
  proof (cases rows)
    case (Row row)
    with assms(1) obtain d where "primary_data res row = Inr d"
      by (auto simp: build_response_Row split: sum.splits)
    then show ?thesis
      by (simp add: Row build_response_no_inclusions(1)[OF assms(2)] pd)
  next
    case (Rows rs)
    with assms(1) obtain ds where "traverse (primary_data res) rs = Inr ds"
      by (auto simp: build_response_Rows split: sum.splits)
    then show ?thesis
      by (simp add: Rows build_response_no_inclusions(2)[OF assms(2)] pd)
  qed
qed

lemma include_inclusions_skip:
  assumes "\<forall>p\<in>U. get_related res row p = Inr []" and "get_related res' = get_related res"
  shows "include_inclusions res' row d (filter (\<lambda>p. p \<notin> U) incs) = include_inclusions res row d incs"
  using assms
proof (induction incs arbitrary: d)
  case Nil
  show ?case by simp
next
  case (Cons inc incs)
  show ?case
  proof (cases "inc \<in> U")
    case True
    then have "get_related res row inc = Inr []" using Cons.prems by blast
    then show ?thesis using True Cons by simp
  next
    case False
    then show ?thesis using Cons by (simp split: sum.splits)
  qed
qed

lemma include_rows_skip:
  assumes "\<forall>p\<in>U. \<forall>row\<in>set rows. get_related res row p = Inr []"
    and "get_related res' = get_related res"
    and "inclusions res' = filter (\<lambda>p. p \<notin> U) (inclusions res)"
  shows "include_rows res' d rows = include_rows res d rows"
  using assms(1)
proof (induction rows arbitrary: d)
  case Nil
  show ?case by simp
next
  case (Cons row rows)
  have "include_inclusions res' row d (inclusions res') = include_inclusions res row d (inclusions res)"
    unfolding assms(3) using Cons.prems assms(2) by (intro include_inclusions_skip) auto
  then show ?case using Cons by (simp split: sum.splits)
qed

text \<open>
  C8, as stated: without an include parameter \<^verbatim>\<open>build_response\<close> returns, for any rows, a
  response whose included list is empty. The constructor of \<^verbatim>\<open>JAResource\<close> validates the
  id of every primary row as a string: for a row whose id is \<^verbatim>\<open>None\<close> it raises, and no
  response is returned.
\<close>

theorem no_include_counterexample:
  "inclusions (get_resource Post Map.empty) = []
   \<and> build_response (Row unsaved_post) (get_resource Post Map.empty) = Inl ValidationError"
  by (simp add: run_defs get_resource_def resource_init_def)

text \<open>
  C8, amended: when the query parameter \<^verbatim>\<open>include\<close> is absent or the empty string,
  \<^verbatim>\<open>get_resource\<close> makes a resource without inclusions. \<^verbatim>\<open>build_response\<close> then makes
  no collaborator call: it raises \<^verbatim>\<open>ValidationError\<close> when the id of a primary row does
  not validate as a string, and otherwise returns the resource objects of the rows as
  \<^verbatim>\<open>data\<close> and an empty \<^verbatim>\<open>included\<close>. Whenever a response is returned for the same rows
  under any other query, one is returned without inclusions too, with the same \<^verbatim>\<open>data\<close>.
\<close>

theorem no_include_empty_included:
  assumes "query_params ''include'' = None \<or> query_params ''include'' = Some ''''"
  shows "inclusions (get_resource cls query_params) = [] \<and>
         build_response (Row row) (get_resource cls query_params) =
           (case primary_data cls row of
              Inl e \<Rightarrow> Inl e | Inr d \<Rightarrow> Inr (JAResponseSingle d [])) \<and>
         build_response (Rows rs) (get_resource cls query_params) =
           (case traverse (primary_data cls) rs of
              Inl e \<Rightarrow> Inl e | Inr ds \<Rightarrow> Inr (JAResponseList ds [])) \<and>
         (\<forall>e. build_response rows (get_resource cls query_params) = Inl e \<longrightarrow> e = ValidationError) \<and>
         ((\<forall>row\<in>set (given_rows rows). model_id row \<noteq> IdNone) \<longrightarrow>
            (\<exists>r. build_response rows (get_resource cls query_params) = Inr r \<and> included r = [])) \<and>
         (\<forall>q' r'. build_response rows (get_resource cls q') = Inr r' \<longrightarrow>
            (\<exists>r. build_response rows (get_resource cls query_params) = Inr r \<and>
                 included r = [] \<and> data r' = data r))"
proof -
  let ?res = "get_resource cls query_params"
  have none: "inclusions ?res = []"
    using assms by (auto simp: get_resource_def resource_init_def)
  have nm: "name (get_resource cls q) = name cls" for q
    by (simp add: get_resource_def resource_init_def)
  have pd: "primary_data ?res = primary_data cls"
    by (rule ext) (simp add: primary_data_def nm)
  note cases = build_response_no_inclusions_cases[OF none, of rows]
  have a: "build_response (Row row) ?res =
           (case primary_data cls row of
              Inl e \<Rightarrow> Inl e | Inr d \<Rightarrow> Inr (JAResponseSingle d []))"
    using build_response_no_inclusions(1)[OF none, of row] by (simp add: pd)
  have b: "build_response (Rows rs) ?res =
           (case traverse (primary_data cls) rs of
              Inl e \<Rightarrow> Inl e | Inr ds \<Rightarrow> Inr (JAResponseList ds []))"
    using build_response_no_inclusions(2)[OF none, of rs] by (simp add: pd)
  have c: "\<forall>e. build_response rows ?res = Inl e \<longrightarrow> e = ValidationError"
    using cases by (elim conjE)
  have d: "(\<forall>row\<in>set (given_rows rows). model_id row \<noteq> IdNone) \<longrightarrow>
            (\<exists>r. build_response rows ?res = Inr r \<and> included r = [])"
    using cases unfolding given_rows_as_list by (elim conjE)
  have e: "\<forall>q' r'. build_response rows (get_resource cls q') = Inr r' \<longrightarrow>
            (\<exists>r. build_response rows ?res = Inr r \<and> included r = [] \<and> data r' = data r)"
  proof (intro allI impI)
    fix q' r' assume r': "build_response rows (get_resource cls q') = Inr r'"
    from build_response_returns_without_inclusions[OF r' none] nm
    obtain r where r: "build_response rows ?res = Inr r" by auto
    with cases have "included r = []" by blast
    moreover have "data r' = data r"
      using build_response_data[OF r r'] nm by simp
    ultimately show "\<exists>r. build_response rows ?res = Inr r \<and> included r = [] \<and> data r' = data r"
      using r by blast
  qed
  from none a b c d e show ?thesis by (intro conjI)
qed

theorem no_include_empty_included_witness:
  "([''include'' \<mapsto> ''''] ''include'' = None \<or> [''include'' \<mapsto> ''''] ''include'' = Some '''')
   \<and> inclusions (get_resource Post [''include'' \<mapsto> '''']) = []
   \<and> build_response (Rows [post1, post2]) (get_resource Post [''include'' \<mapsto> '''']) =
       Inr (JAResponseList
              [\<lparr>ja_id = ''1'', ja_type = ''post'', ja_attributes = post1\<rparr>,
               \<lparr>ja_id = ''2'', ja_type = ''post'', ja_attributes = post2\<rparr>] [])
   \<and> build_response (Rows [post1, post2]) (get_resource Post [''include'' \<mapsto> ''author'']) =
       Inr (JAResponseList
              [\<lparr>ja_id = ''1'', ja_type = ''post'', ja_attributes = post1\<rparr>,
               \<lparr>ja_id = ''2'', ja_type = ''post'', ja_attributes = post2\<rparr>]
              [\<lparr>ja_id = ''7'', ja_type = ''author'', ja_attributes = author7\<rparr>])
   \<and> (\<exists>r. build_response (Rows [post1, post2]) (get_resource Post [''include'' \<mapsto> '''']) = Inr r \<and>
          included r = [] \<and>
          data (JAResponseList
              [\<lparr>ja_id = ''1'', ja_type = ''post'', ja_attributes = post1\<rparr>,
               \<lparr>ja_id = ''2'', ja_type = ''post'', ja_attributes = post2\<rparr>]
              [\<lparr>ja_id = ''7'', ja_type = ''author'', ja_attributes = author7\<rparr>]) = data r)"
proof -
  let ?q = "[''include'' \<mapsto> '''']"
  let ?q' = "[''include'' \<mapsto> ''author'']"
  let ?R' = "JAResponseList
              [\<lparr>ja_id = ''1'', ja_type = ''post'', ja_attributes = post1\<rparr>,
               \<lparr>ja_id = ''2'', ja_type = ''post'', ja_attributes = post2\<rparr>]
              [\<lparr>ja_id = ''7'', ja_type = ''author'', ja_attributes = author7\<rparr>]"
  have h: "?q ''include'' = None \<or> ?q ''include'' = Some ''''" by simp
  have other: "build_response (Rows [post1, post2]) (get_resource Post ?q') = Inr ?R'"
    by (simp add: run_defs get_resource_def resource_init_def)
  have this_one: "build_response (Rows [post1, post2]) (get_resource Post ?q) =
       Inr (JAResponseList
              [\<lparr>ja_id = ''1'', ja_type = ''post'', ja_attributes = post1\<rparr>,
               \<lparr>ja_id = ''2'', ja_type = ''post'', ja_attributes = post2\<rparr>] [])"
    by (simp add: run_defs get_resource_def resource_init_def)
  note t = no_include_empty_included[of ?q Post post1 "[post1, post2]" "Rows [post1, post2]"]
  from t h have a: "inclusions (get_resource Post ?q) = []" by blast
  from t h have "\<forall>q' r'. build_response (Rows [post1, post2]) (get_resource Post q') = Inr r' \<longrightarrow>
            (\<exists>r. build_response (Rows [post1, post2]) (get_resource Post ?q) = Inr r \<and>
                 included r = [] \<and> data r' = data r)"
    by blast
  with other have b: "\<exists>r. build_response (Rows [post1, post2]) (get_resource Post ?q) = Inr r \<and>
                 included r = [] \<and> data ?R' = data r"
    by blast
  from h a this_one other b show ?thesis by (intro conjI)
qed

text \<open>
  C9, as stated: with a path on which \<^verbatim>\<open>get_related\<close> returns the empty list,
  \<^verbatim>\<open>build_response\<close> raises no error. The path raises nothing, but the constructor of
  \<^verbatim>\<open>JAResource\<close> still validates the id of every primary row: for a row whose id is
  \<^verbatim>\<open>None\<close> the call raises.
\<close>

theorem unknown_relationship_counterexample:
  "get_related Post unsaved_post [''nonexistent''] = Inr []
   \<and> build_response (Row unsaved_post) (Post\<lparr>inclusions := [[''nonexistent'']]\<rparr>) =
       Inl ValidationError"
  by (simp add: run_defs)

text \<open>
  C9, amended: let \<open>U\<close> be paths for which \<^verbatim>\<open>get_related\<close> returns the empty list on
  every primary row. Then \<^verbatim>\<open>build_response\<close> does what it does with those paths left out
  of the request, value or exception: they raise nothing and contribute no entry. When only
  such paths are requested, the call does what it does without inclusions: it raises
  \<^verbatim>\<open>ValidationError\<close> when the id of a primary row does not validate as a string, and
  otherwise returns a response whose \<^verbatim>\<open>included\<close> is empty.
\<close>

theorem unknown_relationship_lenient:
  assumes "\<forall>p\<in>U. \<forall>row\<in>set (given_rows rows). get_related res row p = Inr []"
  shows "build_response rows res =
           build_response rows (res\<lparr>inclusions := filter (\<lambda>p. p \<notin> U) (inclusions res)\<rparr>) \<and>
         (set (inclusions res) \<subseteq> U \<longrightarrow>
            build_response rows res = build_response rows (res\<lparr>inclusions := []\<rparr>) \<and>
            (\<forall>r. build_response rows res = Inr r \<longrightarrow> included r = []) \<and>
            (\<forall>e. build_response rows res = Inl e \<longrightarrow> e = ValidationError) \<and>
            ((\<forall>row\<in>set (given_rows rows). model_id row \<noteq> IdNone) \<longrightarrow>
               (\<exists>r. build_response rows res = Inr r \<and> included r = [])))"
proof -
  let ?res' = "res\<lparr>inclusions := filter (\<lambda>p. p \<notin> U) (inclusions res)\<rparr>"
  have loops: "include_rows ?res' [] (as_list rows) = include_rows res [] (as_list rows)"
    using assms unfolding given_rows_as_list by (intro include_rows_skip) auto
  have pd: "primary_data ?res' = primary_data res"
    by (rule ext) (simp add: primary_data_def)
  have eq: "build_response rows res = build_response rows ?res'"
    by (simp add: build_response_def loops pd Let_def split: sum.splits)
  have only: "build_response rows res = build_response rows (res\<lparr>inclusions := []\<rparr>) \<and>
            (\<forall>r. build_response rows res = Inr r \<longrightarrow> included r = []) \<and>
            (\<forall>e. build_response rows res = Inl e \<longrightarrow> e = ValidationError) \<and>
            ((\<forall>row\<in>set (given_rows rows). model_id row \<noteq> IdNone) \<longrightarrow>
               (\<exists>r. build_response rows res = Inr r \<and> included r = []))"
    if "set (inclusions res) \<subseteq> U"
  proof -
    from that have f: "filter (\<lambda>p. p \<notin> U) (inclusions res) = []" by (auto simp: filter_empty_conv)
    have e0: "build_response rows res = build_response rows (res\<lparr>inclusions := []\<rparr>)"
      using eq f by simp
    have "inclusions (res\<lparr>inclusions := []\<rparr>) = []" by simp
    from build_response_no_inclusions_cases[OF this, of rows] e0
    show ?thesis unfolding given_rows_as_list by simp
  qed
  from eq only show ?thesis by blast
qed

theorem unknown_relationship_lenient_witness:
  "get_related Post post1 [''nonexistent''] = Inr []
   \<and> get_related Post post2 [''nonexistent''] = Inr []
   \<and> build_response (Rows [post1, post2]) (Post\<lparr>inclusions := [[''author''], [''nonexistent'']]\<rparr>) =
       build_response (Rows [post1, post2]) (Post\<lparr>inclusions := [[''author'']]\<rparr>)
   \<and> (\<exists>r. build_response (Rows [post1, post2]) (Post\<lparr>inclusions := [[''nonexistent'']]\<rparr>) = Inr r \<and>
          included r = [])"
proof -
  have h: "\<forall>p\<in>{[''nonexistent'']}. \<forall>row\<in>set (given_rows (Rows [post1, post2])).
             get_related (Post\<lparr>inclusions := incs\<rparr>) row p = Inr []" for incs
    by (simp add: Post_def post_related_def)
  have g: "get_related Post post1 [''nonexistent''] = Inr []"
    "get_related Post post2 [''nonexistent''] = Inr []"
    by (simp_all add: Post_def post_related_def)
  have i1: "build_response (Rows [post1, post2]) (Post\<lparr>inclusions := [[''author''], [''nonexistent'']]\<rparr>) =
       build_response (Rows [post1, post2]) (Post\<lparr>inclusions := [[''author'']]\<rparr>)"
    using unknown_relationship_lenient[OF h[of "[[''author''], [''nonexistent'']]"]] by simp
  have ids: "\<forall>row\<in>set (given_rows (Rows [post1, post2])). model_id row \<noteq> IdNone"
    by (simp add: post1_def post2_def)
  from unknown_relationship_lenient[OF h[of "[[''nonexistent'']]"]]
  have "set (inclusions (Post\<lparr>inclusions := [[''nonexistent'']]\<rparr>)) \<subseteq> {[''nonexistent'']} \<longrightarrow>
       ((\<forall>row\<in>set (given_rows (Rows [post1, post2])). model_id row \<noteq> IdNone) \<longrightarrow>
       (\<exists>r. build_response (Rows [post1, post2]) (Post\<lparr>inclusions := [[''nonexistent'']]\<rparr>) = Inr r \<and>
          included r = []))"
    by blast
  with ids have i2: "\<exists>r. build_response (Rows [post1, post2]) (Post\<lparr>inclusions := [[''nonexistent'']]\<rparr>) = Inr r \<and>
          included r = []"
    by simp
  from g i1 i2 show ?thesis by (intro conjI)
qed

subsection \<open>One call of get_related for each row and whole path\<close>

lemma included_per_pair_discoveries:
  "included_per_pair res rows =
     (case discoveries res rows of
        Inl e \<Rightarrow> Inl e | Inr es \<Rightarrow> Inr (dict_values (store_all [] es)))"
proof -
  have "concat (map (\<lambda>row. map (\<lambda>inc. (row, inc)) (inclusions res)) rows) =
        List.product rows (inclusions res)"
    by (induction rows) auto
  then show ?thesis
    by (simp add: included_per_pair_def discoveries_def values_store_all split: sum.splits)
qed

lemma discoveries_cong:
  assumes "\<forall>row\<in>set rows. \<forall>inc\<in>set (inclusions res). g row inc = get_related res row inc"
  shows "discoveries (res\<lparr>get_related := g\<rparr>) rows = discoveries res rows"
proof -
  have "traverse (related_entries (res\<lparr>get_related := g\<rparr>)) (List.product rows (inclusions res)) =
        traverse (related_entries res) (List.product rows (inclusions res))"
    using assms by (intro traverse_cong) (auto simp: related_entries_def)
  then show ?thesis by (simp add: discoveries_def)
qed

text \<open>
  C10. For a single row and for a list of rows alike, the included list of
  \<^verbatim>\<open>build_response\<close>, and the exception when the loops raise one, is that of
  \<open>included_per_pair\<close> on the rows given: one call of \<^verbatim>\<open>get_related\<close> for each pair of
  a primary row and a whole inclusion path, the objects stored under (resource name, object
  id). The core does not look into a path: replacing \<^verbatim>\<open>get_related\<close> by any function
  that agrees with it on these pairs, whatever it does on prefixes and suffixes of the
  paths, leaves the result unchanged.
\<close>

theorem included_one_call_per_pair:
  "build_response (Row row) res =
     (case included_per_pair res [row] of
        Inl e \<Rightarrow> Inl e
      | Inr inc \<Rightarrow>
          (case primary_data res row of
             Inl e \<Rightarrow> Inl e | Inr d \<Rightarrow> Inr (JAResponseSingle d inc))) \<and>
   build_response (Rows rs) res =
     (case included_per_pair res rs of
        Inl e \<Rightarrow> Inl e
      | Inr inc \<Rightarrow>
          (case traverse (primary_data res) rs of
             Inl e \<Rightarrow> Inl e | Inr ds \<Rightarrow> Inr (JAResponseList ds inc))) \<and>
   ((\<forall>inc\<in>set (inclusions res). g row inc = get_related res row inc) \<longrightarrow>
      build_response (Row row) (res\<lparr>get_related := g\<rparr>) = build_response (Row row) res) \<and>
   ((\<forall>row\<in>set rs. \<forall>inc\<in>set (inclusions res). g row inc = get_related res row inc) \<longrightarrow>
      build_response (Rows rs) (res\<lparr>get_related := g\<rparr>) = build_response (Rows rs) res)"
proof (intro conjI impI)
  show "build_response (Row row) res =
     (case included_per_pair res [row] of
        Inl e \<Rightarrow> Inl e
      | Inr inc \<Rightarrow>
          (case primary_data res row of
             Inl e \<Rightarrow> Inl e | Inr d \<Rightarrow> Inr (JAResponseSingle d inc)))"
    by (simp add: build_response_Row included_per_pair_discoveries split: sum.splits)
  show "build_response (Rows rs) res =
     (case included_per_pair res rs of
        Inl e \<Rightarrow> Inl e
      | Inr inc \<Rightarrow>
          (case traverse (primary_data res) rs of
             Inl e \<Rightarrow> Inl e | Inr ds \<Rightarrow> Inr (JAResponseList ds inc)))"
    by (simp add: build_response_Rows included_per_pair_discoveries split: sum.splits)
  have pd: "primary_data (res\<lparr>get_related := g\<rparr>) = primary_data res"
    by (rule ext) (simp add: primary_data_def)
  {
    assume "\<forall>inc\<in>set (inclusions res). g row inc = get_related res row inc"
    then have "discoveries (res\<lparr>get_related := g\<rparr>) [row] = discoveries res [row]"
      by (intro discoveries_cong) simp
    then show "build_response (Row row) (res\<lparr>get_related := g\<rparr>) = build_response (Row row) res"
      by (simp add: build_response_Row pd split: sum.splits)
  }
  {
    assume "\<forall>row\<in>set rs. \<forall>inc\<in>set (inclusions res). g row inc = get_related res row inc"
    then have "discoveries (res\<lparr>get_related := g\<rparr>) rs = discoveries res rs"
      by (rule discoveries_cong)
    then show "build_response (Rows rs) (res\<lparr>get_related := g\<rparr>) = build_response (Rows rs) res"
      by (simp add: build_response_Rows pd split: sum.splits)
  }
qed

text \<open>
  Two posts and the path \<^verbatim>\<open>author.publisher\<close>: one call for each post with the whole
  path, which selects the publisher and not the author; a collaborator that raises on every
  other path gives the same response.
\<close>

theorem included_one_call_per_pair_witness:
  "whole_path_only post1 [''author'', ''publisher''] =
     get_related Post post1 [''author'', ''publisher'']
   \<and> whole_path_only post2 [''author'', ''publisher''] =
     get_related Post post2 [''author'', ''publisher'']
   \<and> whole_path_only post1 [''author''] \<noteq> get_related Post post1 [''author'']
   \<and> build_response (Rows [post1, post2])
        (Post\<lparr>inclusions := [[''author'', ''publisher'']], get_related := whole_path_only\<rparr>) =
      build_response (Rows [post1, post2]) (Post\<lparr>inclusions := [[''author'', ''publisher'']]\<rparr>)
   \<and> build_response (Rows [post1, post2]) (Post\<lparr>inclusions := [[''author'', ''publisher'']]\<rparr>) =
       Inr (JAResponseList
              [\<lparr>ja_id = ''1'', ja_type = ''post'', ja_attributes = post1\<rparr>,
               \<lparr>ja_id = ''2'', ja_type = ''post'', ja_attributes = post2\<rparr>]
              [\<lparr>ja_id = ''3'', ja_type = ''publisher'', ja_attributes = pub3\<rparr>])
   \<and> included_per_pair (Post\<lparr>inclusions := [[''author'', ''publisher'']]\<rparr>) [post1, post2] =
       Inr [\<lparr>ja_id = ''3'', ja_type = ''publisher'', ja_attributes = pub3\<rparr>]
   \<and> build_response (Row post1) (Post\<lparr>inclusions := [[''author'', ''publisher'']]\<rparr>) =
       Inr (JAResponseSingle \<lparr>ja_id = ''1'', ja_type = ''post'', ja_attributes = post1\<rparr>
              [\<lparr>ja_id = ''3'', ja_type = ''publisher'', ja_attributes = pub3\<rparr>])
   \<and> included_per_pair (Post\<lparr>inclusions := [[''author'', ''publisher'']]\<rparr>) [post1] =
       Inr [\<lparr>ja_id = ''3'', ja_type = ''publisher'', ja_attributes = pub3\<rparr>]"
proof -
  let ?res = "Post\<lparr>inclusions := [[''author'', ''publisher'']]\<rparr>"
  let ?d1 = "\<lparr>ja_id = ''1'', ja_type = ''post'', ja_attributes = post1\<rparr>"
  let ?d2 = "\<lparr>ja_id = ''2'', ja_type = ''post'', ja_attributes = post2\<rparr>"
  let ?p = "\<lparr>ja_id = ''3'', ja_type = ''publisher'', ja_attributes = pub3\<rparr>"
  note t = included_one_call_per_pair[of post1 ?res "[post1, post2]" whole_path_only]
  have same: "\<forall>row\<in>set [post1, post2]. \<forall>inc\<in>set (inclusions ?res).
               whole_path_only row inc = get_related ?res row inc"
    by (simp add: whole_path_only_def Post_def)
  have others: "whole_path_only post1 [''author'', ''publisher''] =
     get_related Post post1 [''author'', ''publisher'']"
    "whole_path_only post2 [''author'', ''publisher''] =
     get_related Post post2 [''author'', ''publisher'']"
    "whole_path_only post1 [''author''] \<noteq> get_related Post post1 [''author'']"
    by (simp_all add: whole_path_only_def Post_def post_related_def)
  have run: "build_response (Rows [post1, post2]) ?res = Inr (JAResponseList [?d1, ?d2] [?p])"
    by (simp add: run_defs)
  have run1: "build_response (Row post1) ?res = Inr (JAResponseSingle ?d1 [?p])"
    by (simp add: run_defs)
  have pds: "traverse (primary_data ?res) [post1, post2] = Inr [?d1, ?d2]"
    "primary_data ?res post1 = Inr ?d1"
    by (simp_all add: run_defs)
  from t same have eq: "build_response (Rows [post1, post2]) (?res\<lparr>get_related := whole_path_only\<rparr>) =
      build_response (Rows [post1, post2]) ?res"
    by blast
  from t have "build_response (Rows [post1, post2]) ?res =
     (case included_per_pair ?res [post1, post2] of
        Inl e \<Rightarrow> Inl e
      | Inr inc \<Rightarrow>
          (case traverse (primary_data ?res) [post1, post2] of
             Inl e \<Rightarrow> Inl e | Inr ds \<Rightarrow> Inr (JAResponseList ds inc)))"
    by (elim conjE)
  with run pds have ipp: "included_per_pair ?res [post1, post2] = Inr [?p]"
    by (auto split: sum.splits)
  from t have "build_response (Row post1) ?res =
     (case included_per_pair ?res [post1] of
        Inl e \<Rightarrow> Inl e
      | Inr inc \<Rightarrow>
          (case primary_data ?res post1 of
             Inl e \<Rightarrow> Inl e | Inr d \<Rightarrow> Inr (JAResponseSingle d inc)))"
    by (elim conjE)
  with run1 pds have ipp1: "included_per_pair ?res [post1] = Inr [?p]"
    by (auto split: sum.splits)
  from others eq run ipp run1 ipp1 show ?thesis by simp
qed

subsection \<open>The schema closure\<close>

lemma visited_or_set_simps [simp]:
  "visited_or_set None = {}" "visited_or_set (Some v) = v"
  by (simp_all add: visited_or_set_def)

lemma loop_post_skip:
  "schema \<in> V \<Longrightarrow> loop_post g rest V new V' \<Longrightarrow> loop_post g (schema # rest) V new V'"
  unfolding loop_post_def by auto

lemma loop_post_step:
  assumes s: "schema \<notin> V"
    and sub: "loop_post g (dict_values (relationships_of g schema)) (insert schema V) found V1"
    and rest: "loop_post g rest V1 new V'"
  shows "loop_post g (schema # rest) V (schema # found @ new) V'"
proof -
  have succ: "set (dict_values (relationships_of g schema)) = edges g `` {schema}"
    by (auto simp: edges_def)
  have r: "(edges g)\<^sup>* `` (edges g `` {schema}) \<subseteq> (edges g)\<^sup>* `` {schema}"
    by (auto intro: converse_rtrancl_into_rtrancl)
  from sub have 1: "distinct found" "set found \<inter> insert schema V = {}"
    "V1 = insert schema V \<union> set found"
    "set found \<subseteq> (edges g)\<^sup>* `` (edges g `` {schema})"
    "edges g `` {schema} \<subseteq> V1" "\<forall>x\<in>set found. edges g `` {x} \<subseteq> V1"
    unfolding loop_post_def succ by blast+
  from rest have 2: "distinct new" "set new \<inter> V1 = {}" "V' = V1 \<union> set new"
    "set new \<subseteq> (edges g)\<^sup>* `` set rest" "set rest \<subseteq> V'" "\<forall>x\<in>set new. edges g `` {x} \<subseteq> V'"
    unfolding loop_post_def by blast+
  have a: "distinct (schema # found @ new)" using 1(1,2,3) 2(1,2) by auto
  have b: "set (schema # found @ new) \<inter> V = {}" using s 1(2,3) 2(2) by auto
  have c: "V' = V \<union> set (schema # found @ new)" using 1(3) 2(3) by auto
  have "set found \<subseteq> (edges g)\<^sup>* `` {schema}" using 1(4) r by blast
  then have d: "set (schema # found @ new) \<subseteq> (edges g)\<^sup>* `` set (schema # rest)"
    using 2(4) by (simp add: Image_def) blast
  have e: "set (schema # rest) \<subseteq> V'" using 1(3) 2(3,5) by auto
  have f: "\<forall>x\<in>set (schema # found @ new). edges g `` {x} \<subseteq> V'"
    using 1(5,6) 2(3,6) by auto
  from a b c d e f show ?thesis unfolding loop_post_def by blast
qed

lemma closure_correct:
  "(get_schemas_from_relationships depth g relationships visited = Some (out, V') \<longrightarrow>
      loop_post g (dict_values relationships) (visited_or_set visited) out V')"
  "(schemas_loop depth g todo schemas V = Some (out, V') \<longrightarrow>
      (\<exists>new. out = schemas @ new \<and> loop_post g todo V new V'))"
proof (induction depth g relationships visited and depth g todo schemas V
       arbitrary: out V' and out V'
       rule: get_schemas_from_relationships_schemas_loop.induct)
  case (1 g relationships visited)
  show ?case by simp
next
  case (2 depth g relationships visited)
  show ?case using 2[of out V'] by auto
next
  case (3 depth g schemas visited)
  show ?case by (auto simp: loop_post_def)
next
  case (4 depth g schema rest schemas visited)
  show ?case
  proof (cases "schema \<in> visited")
    case True
    then show ?thesis using 4(1)[OF True, of out V'] by (auto intro: loop_post_skip)
  next
    case False
    show ?thesis
    proof
      assume run: "schemas_loop depth g (schema # rest) schemas visited = Some (out, V')"
      then obtain found V1 where
        sub: "get_schemas_from_relationships depth g (relationships_of g schema)
                (Some (insert schema visited)) = Some (found, V1)"
        and rest: "schemas_loop depth g rest (schemas @ [schema] @ found) V1 = Some (out, V')"
        using False by (auto split: option.splits)
      from 4(2)[OF False, of found V1] sub
      have p1: "loop_post g (dict_values (relationships_of g schema)) (insert schema visited) found V1"
        by simp
      from 4(3)[OF False sub refl, of out V'] rest
      obtain new where new: "out = (schemas @ [schema] @ found) @ new" "loop_post g rest V1 new V'"
        by auto
      from loop_post_step[OF False p1 new(2)] new(1)
      show "\<exists>new. out = schemas @ new \<and> loop_post g (schema # rest) visited new V'"
        by auto
    qed
  qed
qed

lemma loop_post_mono: "loop_post g todo V new V' \<Longrightarrow> V \<subseteq> V'"
  unfolding loop_post_def by blast

lemma enough_depth:
  fixes U :: "'sch set"
  shows "finite U \<longrightarrow> (\<forall>s\<in>U. set (dict_values (relationships_of g s)) \<subseteq> U) \<longrightarrow>
         set (dict_values relationships) \<subseteq> U \<longrightarrow> card (U - visited_or_set visited) < depth \<longrightarrow>
           get_schemas_from_relationships depth g relationships visited \<noteq> None"
    and "finite U \<longrightarrow> (\<forall>s\<in>U. set (dict_values (relationships_of g s)) \<subseteq> U) \<longrightarrow>
         set todo \<subseteq> U \<longrightarrow> card (U - V) \<le> depth \<longrightarrow>
           schemas_loop depth g todo schemas V \<noteq> None"
proof (induction depth g relationships visited and depth g todo schemas V
       rule: get_schemas_from_relationships_schemas_loop.induct)
  case (1 g relationships visited)
  show ?case by simp
next
  case (2 depth g relationships visited)
  show ?case using 2 by auto
next
  case (3 depth g schemas visited)
  show ?case by simp
next
  case (4 depth g schema rest schemas visited)
  show ?case
  proof (intro impI)
    assume fin: "finite U"
      and closed: "\<forall>s\<in>U. set (dict_values (relationships_of g s)) \<subseteq> U"
      and todo: "set (schema # rest) \<subseteq> U" and c: "card (U - visited) \<le> depth"
    show "schemas_loop depth g (schema # rest) schemas visited \<noteq> None"
    proof (cases "schema \<in> visited")
      case True
      then show ?thesis using 4(1)[OF True] fin closed todo c by simp
    next
      case False
      have inU: "schema \<in> U - visited" using todo False by simp
      have "card (U - insert schema visited) < card (U - visited)"
      proof -
        have "U - insert schema visited = (U - visited) - {schema}" by blast
        moreover have "finite (U - visited)" using fin by simp
        ultimately show ?thesis using inU card_Diff1_less[of "U - visited" schema] by simp
      qed
      then have c1: "card (U - visited_or_set (Some (insert schema visited))) < depth"
        using c by simp
      have "set (dict_values (relationships_of g schema)) \<subseteq> U"
        using closed inU by blast
      with 4(2)[OF False] c1 fin closed
      have "get_schemas_from_relationships depth g (relationships_of g schema)
              (Some (insert schema visited)) \<noteq> None" by blast
      then obtain found V1 where
        sub: "get_schemas_from_relationships depth g (relationships_of g schema)
                (Some (insert schema visited)) = Some (found, V1)" by auto
      from closure_correct(1)[of depth g "relationships_of g schema" "Some (insert schema visited)" found V1] sub
      have "insert schema visited \<subseteq> V1"
        by (auto dest: loop_post_mono)
      then have "U - V1 \<subseteq> U - visited" by blast
      then have "card (U - V1) \<le> card (U - visited)" using fin by (simp add: card_mono)
      with c have c2: "card (U - V1) \<le> depth" by simp
      from 4(3)[OF False sub refl] fin closed todo c2
      have "schemas_loop depth g rest (schemas @ [schema] @ found) V1 \<noteq> None" by simp
      then show ?thesis using False sub by simp
    qed
  qed
qed

lemma all_schemas_closed:
  "s \<in> set (all_schemas g relationships) \<Longrightarrow>
     set (dict_values (relationships_of g s)) \<subseteq> set (all_schemas g relationships)"
proof (cases "map_of g s")
  case None
  then show ?thesis by (simp add: relationships_of_def dict_values_def)
next
  case (Some rels)
  then have "(s, rels) \<in> set g" by (rule map_of_SomeD)
  then show ?thesis using Some by (force simp: relationships_of_def all_schemas_def)
qed

lemma closed_reachable:
  assumes roots: "R \<subseteq> W" and closed: "\<forall>x\<in>W. E `` {x} \<subseteq> W"
  shows "E\<^sup>* `` R \<subseteq> W"
proof
  fix t assume "t \<in> E\<^sup>* `` R"
  then obtain s where s: "s \<in> R" and st: "(s, t) \<in> E\<^sup>*" by blast
  from st show "t \<in> W"
  proof (induction rule: rtrancl_induct)
    case base
    show ?case using s roots by blast
  next
    case (step y z)
    then show ?case using closed by blast
  qed
qed

text \<open>
  C3. For every relationship graph, cyclic or not, and every relationship mapping,
  \<^verbatim>\<open>get_schemas_from_relationships\<close> called without a visited set, or with an empty one,
  returns as soon as the recursion may go deeper than the number of schemas mentioned, and
  the list it returns holds the schemas reachable from the mapping, each exactly once.
\<close>

theorem schema_closure_terminates_each_once:
  assumes "length (all_schemas g relationships) < depth"
    and "visited = None \<or> visited = Some {}"
  shows "\<exists>out V. get_schemas_from_relationships depth g relationships visited = Some (out, V) \<and>
           distinct out \<and> set out = reachable_schemas g relationships"
proof -
  let ?U = "set (all_schemas g relationships)"
  have v: "visited_or_set visited = {}" using assms(2) by auto
  have "card ?U \<le> length (all_schemas g relationships)" by (rule card_length)
  then have c: "card (?U - visited_or_set visited) < depth" using assms(1) v by simp
  have roots: "set (dict_values relationships) \<subseteq> ?U" by (simp add: all_schemas_def)
  from enough_depth(1)[of ?U g relationships visited depth] all_schemas_closed[of _ g relationships] roots c
  have "get_schemas_from_relationships depth g relationships visited \<noteq> None" by blast
  then obtain out V where run: "get_schemas_from_relationships depth g relationships visited = Some (out, V)"
    by auto
  from closure_correct(1)[of depth g relationships visited out V] run v
  have post: "loop_post g (dict_values relationships) {} out V" by simp
  then have d: "distinct out" and V: "V = set out"
    and sound: "set out \<subseteq> (edges g)\<^sup>* `` set (dict_values relationships)"
    and r: "set (dict_values relationships) \<subseteq> set out"
    and cl: "\<forall>x\<in>set out. edges g `` {x} \<subseteq> set out"
    unfolding loop_post_def by auto
  from closed_reachable[OF r cl] sound
  have "set out = reachable_schemas g relationships" by (auto simp: reachable_schemas_def)
  with run d show ?thesis by blast
qed

theorem schema_closure_terminates_each_once_witness:
  "length (all_schemas cyclic_graph [(''b'', ''B''), (''again'', ''B'')]) < 11
   \<and> get_schemas_from_relationships 11 cyclic_graph [(''b'', ''B''), (''again'', ''B'')] None =
       Some ([''B'', ''A'', ''C''], {''A'', ''B'', ''C''})
   \<and> distinct [''B'', ''A'', ''C'']
   \<and> reachable_schemas cyclic_graph [(''b'', ''B''), (''again'', ''B'')] = {''A'', ''B'', ''C''}"
proof -
  let ?rels = "[(''b'', ''B''), (''again'', ''B'')]"
  have len: "length (all_schemas cyclic_graph ?rels) < 11"
    by (simp add: all_schemas_def cyclic_graph_def dict_values_def)
  have run: "get_schemas_from_relationships 11 cyclic_graph ?rels None =
       Some ([''B'', ''A'', ''C''], {''A'', ''B'', ''C''})"
    by (simp add: cyclic_graph_def relationships_of_def dict_values_def numeral_eq_Suc
          insert_commute)
  from schema_closure_terminates_each_once[OF len, of None]
  obtain out V where
    "get_schemas_from_relationships 11 cyclic_graph ?rels None = Some (out, V)"
    "distinct out" "set out = reachable_schemas cyclic_graph ?rels"
    by blast
  with run have "reachable_schemas cyclic_graph ?rels = {''A'', ''B'', ''C''}" by auto
  with len run show ?thesis by simp
qed

subsection \<open>What the validation pattern accepts\<close>

lemma nullable_lang: "nullable r \<longleftrightarrow> [] \<in> lang r"
  by (induction r) (auto simp: conc_def star.star_empty)

lemma star_cons_split:
  assumes "w \<in> star A" and "w = c # x"
  shows "\<exists>u v. x = u @ v \<and> c # u \<in> A \<and> v \<in> star A"
  using assms
proof (induction arbitrary: x rule: star.induct)
  case star_empty
  then show ?case by simp
next
  case (star_step u v)
  show ?case
  proof (cases u)
    case Nil
    then show ?thesis using star_step by simp
  next
    case (Cons d u')
    then have "x = u' @ v" "c # u' \<in> A" using star_step.hyps(1) star_step.prems by auto
    with star_step.hyps(2) show ?thesis by blast
  qed
qed

lemma deriv_lang: "lang (deriv c r) = {w. c # w \<in> lang r}"
proof (induction r)
  case (Times r s)
  have "{w. c # w \<in> conc (lang r) (lang s)} =
        conc {w. c # w \<in> lang r} (lang s) \<union> (if [] \<in> lang r then {w. c # w \<in> lang s} else {})"
    (is "?L = ?R")
  proof
    show "?L \<subseteq> ?R"
    proof
      fix w assume "w \<in> ?L"
      then obtain u v where uv: "c # w = u @ v" "u \<in> lang r" "v \<in> lang s"
        by (auto simp: conc_def)
      show "w \<in> ?R"
      proof (cases u)
        case Nil
        then show ?thesis using uv by auto
      next
        case (Cons d u')
        then have "w = u' @ v" "c # u' \<in> lang r" using uv by auto
        then show ?thesis using uv(3) by (auto simp: conc_def)
      qed
    qed
    show "?R \<subseteq> ?L"
    proof
      fix w assume w: "w \<in> ?R"
      show "w \<in> ?L"
      proof (cases "w \<in> conc {w. c # w \<in> lang r} (lang s)")
        case True
        then obtain u v where "w = u @ v" "c # u \<in> lang r" "v \<in> lang s"
          by (auto simp: conc_def)
        then have "c # w = (c # u) @ v \<and> c # u \<in> lang r \<and> v \<in> lang s" by simp
        then show ?thesis unfolding conc_def by blast
      next
        case False
        with w have "[] \<in> lang r" "c # w \<in> lang s" by (auto split: if_splits)
        then have "c # w = [] @ (c # w) \<and> [] \<in> lang r \<and> c # w \<in> lang s" by simp
        then show ?thesis unfolding conc_def by blast
      qed
    qed
  qed
  then show ?case using Times by (auto simp: nullable_lang)
next
  case (Star r)
  have "{w. c # w \<in> star (lang r)} = conc {w. c # w \<in> lang r} (star (lang r))"
    (is "?L = ?R")
  proof
    show "?L \<subseteq> ?R"
      using star_cons_split[of _ "lang r" c] by (fastforce simp: conc_def)
    show "?R \<subseteq> ?L"
    proof
      fix w assume "w \<in> ?R"
      then obtain u v where "w = u @ v" "c # u \<in> lang r" "v \<in> star (lang r)"
        by (auto simp: conc_def)
      then show "w \<in> ?L" using star.star_step[of "c # u" "lang r" v] by simp
    qed
  qed
  then show ?case using Star by simp
qed auto

lemma matches_lang: "matches r s \<longleftrightarrow> s \<in> lang r"
  by (induction s arbitrary: r) (simp_all add: nullable_lang deriv_lang)

lemma split_not_Nil [simp]: "split sep s \<noteq> []"
  by (induction s) (auto split: list.splits)

lemma split_no_sep: "sep \<notin> set p \<Longrightarrow> split sep p = [p]"
  by (induction p) auto

lemma split_append_sep: "sep \<notin> set p \<Longrightarrow> split sep (p @ sep # rest) = p # split sep rest"
  by (induction p) auto

lemma split_pieces_chars: "p \<in> set (split sep s) \<Longrightarrow> set p \<subseteq> set s - {sep}"
proof (induction s arbitrary: p)
  case Nil
  then show ?case by simp
next
  case (Cons c cs)
  show ?case
  proof (cases "c = sep")
    case True
    then show ?thesis using Cons by auto
  next
    case False
    obtain q qs where q: "split sep cs = q # qs" by (cases "split sep cs") auto
    then have "p = c # q \<or> p \<in> set qs" using Cons.prems False by auto
    then show ?thesis
    proof
      assume "p = c # q"
      moreover have "set q \<subseteq> set cs - {sep}" using Cons.IH[of q] q by simp
      ultimately show ?thesis using False by auto
    next
      assume "p \<in> set qs"
      then have "set p \<subseteq> set cs - {sep}" using Cons.IH[of p] q by simp
      then show ?thesis by auto
    qed
  qed
qed

lemma join_split: "join sep (split sep s) = s"
proof (induction s)
  case Nil
  show ?case by simp
next
  case (Cons c cs)
  obtain q qs where q: "split sep cs = q # qs" by (cases "split sep cs") auto
  show ?case
  proof (cases "c = sep")
    case True
    then show ?thesis using Cons q by simp
  next
    case False
    then show ?thesis using Cons q by (cases qs) auto
  qed
qed

lemma star_atoms: "star {[c] | c. P c} = {w. list_all P w}"
proof
  show "star {[c] | c. P c} \<subseteq> {w. list_all P w}"
  proof
    fix w assume "w \<in> star {[c] | c. P c}"
    then show "w \<in> {w. list_all P w}" by (induction rule: star.induct) auto
  qed
  show "{w. list_all P w} \<subseteq> star {[c] | c. P c}"
  proof
    fix w assume "w \<in> {w. list_all P w}"
    then have "list_all P w" by simp
    then show "w \<in> star {[c] | c. P c}"
    proof (induction w)
      case Nil
      show ?case by (rule star.star_empty)
    next
      case (Cons c cs)
      then have "[c] \<in> {[c] | c. P c}" "cs \<in> star {[c] | c. P c}" by auto
      from star.star_step[OF this] show ?case by simp
    qed
  qed
qed

lemma lang_one_or_more_Atom:
  "lang (one_or_more (Atom P)) = {w. w \<noteq> [] \<and> list_all P w}"
proof
  show "lang (one_or_more (Atom P)) \<subseteq> {w. w \<noteq> [] \<and> list_all P w}"
    by (auto simp: one_or_more_def conc_def star_atoms)
  show "{w. w \<noteq> [] \<and> list_all P w} \<subseteq> lang (one_or_more (Atom P))"
  proof
    fix w assume "w \<in> {w. w \<noteq> [] \<and> list_all P w}"
    then obtain c cs where w: "w = [c] @ cs" "P c" "list_all P cs" by (cases w) auto
    then have "[c] \<in> {[c] | c. P c}" "cs \<in> star {[c] | c. P c}" by (auto simp: star_atoms)
    with w(1) show "w \<in> lang (one_or_more (Atom P))"
      unfolding one_or_more_def lang.simps conc_def by blast
  qed
qed

lemma comma_not_word_or_dot [simp]: "\<not> word_or_dot unicode_word (CHR '','')"
  by (simp add: word_or_dot_def word_char_def)

lemma newline_not_word_or_dot [simp]: "\<not> word_or_dot unicode_word newline"
  by (simp add: word_or_dot_def word_char_def newline_def)

lemma dot_not_word_char [simp]: "\<not> word_char unicode_word (CHR ''.'')"
  by (simp add: word_char_def)

lemma lang_include_query:
  "lang (include_query unicode_word) =
     conc {w. w \<noteq> [] \<and> list_all (word_or_dot unicode_word) w}
       (star (conc {[c] | c. c = CHR '',''}
                {w. w \<noteq> [] \<and> list_all (word_or_dot unicode_word) w}))"
  by (simp add: include_query_def lang_one_or_more_Atom)

lemma concI: "u \<in> A \<Longrightarrow> v \<in> B \<Longrightarrow> u @ v \<in> conc A B"
  unfolding conc_def by blast

lemma concE:
  assumes "w \<in> conc A B"
  obtains u v where "w = u @ v" "u \<in> A" "v \<in> B"
  using assms unfolding conc_def by blast

lemma paths_ok_after_path:
  assumes "w \<in> star (conc {[c] | c. c = CHR '',''}
                {w. w \<noteq> [] \<and> list_all (word_or_dot unicode_word) w})"
    and "p \<noteq> []" and "list_all (word_or_dot unicode_word) p"
  shows "paths_ok unicode_word (p @ w)"
  using assms
proof (induction arbitrary: p rule: star.induct)
  case star_empty
  have "CHR '','' \<notin> set p" using star_empty(2) by (auto simp: list_all_iff)
  then show ?case using star_empty by (simp add: paths_ok_def split_no_sep)
next
  case (star_step x v)
  from star_step.hyps(1) obtain c q where "x = c @ q" "c \<in> {[c] | c. c = CHR '',''}"
    "q \<in> {w. w \<noteq> [] \<and> list_all (word_or_dot unicode_word) w}"
    by (rule concE)
  then have x: "x = CHR '','' # q" and q: "q \<noteq> []" "list_all (word_or_dot unicode_word) q"
    by auto
  have "CHR '','' \<notin> set p" using star_step.prems(2) by (auto simp: list_all_iff)
  then have "split (CHR '','') (p @ x @ v) = p # split (CHR '','') (q @ v)"
    using x by (simp add: split_append_sep)
  moreover have "paths_ok unicode_word (q @ v)" using star_step.IH[OF q] .
  ultimately show ?case using star_step.prems by (simp add: paths_ok_def)
qed

lemma join_paths_in_lang:
  assumes "pieces \<noteq> []"
    and "list_all (\<lambda>p. p \<noteq> [] \<and> list_all (word_or_dot unicode_word) p) pieces"
  shows "join (CHR '','') pieces \<in> lang (include_query unicode_word)"
  using assms
proof (induction "CHR '',''" pieces rule: join.induct)
  case 1
  then show ?case by simp
next
  case (2 p)
  then have "p \<in> {w. w \<noteq> [] \<and> list_all (word_or_dot unicode_word) w}" by simp
  from concI[OF this star.star_empty]
  have "p @ [] \<in> lang (include_query unicode_word)"
    unfolding lang_include_query .
  then show ?case by simp
next
  case (3 p q ps)
  let ?G = "{w. w \<noteq> [] \<and> list_all (word_or_dot unicode_word) w}"
  let ?X = "conc {[c] | c. c = CHR '',''} ?G"
  from 3 have "join (CHR '','') (q # ps) \<in> conc ?G (star ?X)"
    by (simp add: lang_include_query)
  then obtain q' w where j: "join (CHR '','') (q # ps) = q' @ w" and q': "q' \<in> ?G"
    and w: "w \<in> star ?X"
    by (rule concE)
  have "[CHR '',''] \<in> {[c] | c. c = CHR '',''}" by simp
  from concI[OF this q'] have "[CHR '',''] @ q' \<in> ?X" .
  from star.star_step[OF this w] have "CHR '','' # q' @ w \<in> star ?X" by simp
  moreover have "p \<in> ?G" using 3(3) by simp
  ultimately have "p @ CHR '','' # q' @ w \<in> conc ?G (star ?X)"
    by (intro concI)
  then show ?case using j by (simp add: lang_include_query)
qed

lemma matches_include_query:
  "matches (include_query unicode_word) m \<longleftrightarrow> paths_ok unicode_word m"
proof
  assume "matches (include_query unicode_word) m"
  then have "m \<in> lang (include_query unicode_word)" by (simp add: matches_lang)
  then obtain p w where m: "m = p @ w"
    and p: "p \<in> {w. w \<noteq> [] \<and> list_all (word_or_dot unicode_word) w}"
    and w: "w \<in> star (conc {[c] | c. c = CHR '',''}
                {w. w \<noteq> [] \<and> list_all (word_or_dot unicode_word) w})"
    unfolding lang_include_query by (rule concE)
  from p have "p \<noteq> []" "list_all (word_or_dot unicode_word) p" by simp_all
  from paths_ok_after_path[OF w this] show "paths_ok unicode_word m" using m by simp
next
  assume "paths_ok unicode_word m"
  then have "join (CHR '','') (split (CHR '','') m) \<in> lang (include_query unicode_word)"
    unfolding paths_ok_def by (intro join_paths_in_lang) simp_all
  then show "matches (include_query unicode_word) m" by (simp add: join_split matches_lang)
qed

lemma match_to_dollar_iff:
  "match_to_dollar r s \<longleftrightarrow> (\<exists>m. (s = m \<or> s = m @ [newline]) \<and> matches r m)"
proof -
  have "(case rev s of [] \<Rightarrow> False | c # m \<Rightarrow> c = newline \<and> matches r (rev m)) \<longleftrightarrow>
        (\<exists>m. s = m @ [newline] \<and> matches r m)"
  proof (cases s rule: rev_cases)
    case Nil
    then show ?thesis by simp
  next
    case (snoc m c)
    then show ?thesis by auto
  qed
  then show ?thesis unfolding match_to_dollar_def by blast
qed

lemma include_accepted_iff:
  "include_accepted unicode_word s \<longleftrightarrow>
     (\<exists>m. (s = m \<or> s = m @ [newline]) \<and> paths_ok unicode_word m)"
  by (simp add: include_accepted_def match_to_dollar_iff matches_include_query)

lemmas regex_defs = include_accepted_def match_to_dollar_def include_query_def one_or_more_def
  word_or_dot_def word_char_def newline_def ascii_only_def

text \<open>
  C4, as stated: every accepted include string splits, on commas and then on dots, into
  segments that are not empty and made of word characters. The class \<^verbatim>\<open>[\w\.]\<close> takes
  dots like word characters, so \<^verbatim>\<open>a..b\<close> is accepted and has an empty segment; and
  \<^verbatim>\<open>$\<close> accepts a final newline, which stays in the last segment.
\<close>

theorem include_query_grammar_counterexample:
  "include_accepted ascii_only ''a..b''
   \<and> map (split (CHR ''.'')) (split (CHR '','') ''a..b'') = [[''a'', '''', ''b'']]
   \<and> include_accepted ascii_only [CHR ''a'', CHR 0x0A]
   \<and> map (split (CHR ''.'')) (split (CHR '','') [CHR ''a'', CHR 0x0A]) = [[[CHR ''a'', CHR 0x0A]]]
   \<and> \<not> word_char ascii_only (CHR 0x0A)"
  by (simp add: regex_defs)

lemma split_chars_covered:
  "c \<in> set s \<Longrightarrow> c = sep \<or> (\<exists>p\<in>set (split sep s). c \<in> set p)"
proof (induction s)
  case Nil
  then show ?case by simp
next
  case (Cons d s)
  obtain q qs where q: "split sep s = q # qs" by (cases "split sep s") auto
  show ?case
  proof (cases "d = sep")
    case True
    then show ?thesis using Cons by auto
  next
    case False
    then show ?thesis using Cons q by auto
  qed
qed

lemma split_snoc:
  "c \<noteq> sep \<Longrightarrow>
     split sep (m @ [c]) = butlast (split sep m) @ [last (split sep m) @ [c]]"
proof (induction m)
  case Nil
  then show ?case by simp
next
  case (Cons d m)
  obtain q qs where q: "split sep m = q # qs" by (cases "split sep m") auto
  show ?case
  proof (cases "d = sep")
    case True
    then show ?thesis using Cons by simp
  next
    case False
    then show ?thesis using Cons q by (cases qs) auto
  qed
qed

lemma paths_ok_chars:
  assumes "paths_ok unicode_word m" and "c \<in> set m"
  shows "c = CHR '','' \<or> word_or_dot unicode_word c"
proof -
  from split_chars_covered[OF assms(2), of "CHR '','' "]
  show ?thesis using assms(1) by (auto simp: paths_ok_def list_all_iff)
qed

lemma segment_chars:
  assumes path: "path \<in> set (split (CHR '','') s)"
    and seg: "seg \<in> set (split (CHR ''.'') path)"
    and c: "c \<in> set seg"
  shows "c \<in> set s \<and> c \<noteq> CHR '','' \<and> c \<noteq> CHR ''.''"
  using split_pieces_chars[OF path] split_pieces_chars[OF seg] c by auto

text \<open>
  C4, amended: every accepted include string is, up to one final newline, a comma-separated
  list of paths that are not empty, and the segments of each path, split on dots, are made
  of word characters only; a segment may be empty. In the string as \<^verbatim>\<open>get_resource\<close>
  splits it no path is empty and every character of a segment is a word character or that
  final newline.
\<close>

theorem include_accepted_segments:
  "include_accepted unicode_word s \<Longrightarrow>
     (\<exists>m. (s = m \<or> s = m @ [newline]) \<and>
          (\<forall>path\<in>set (split (CHR '','') m).
             path \<noteq> [] \<and>
             (\<forall>seg\<in>set (split (CHR ''.'') path). \<forall>c\<in>set seg. word_char unicode_word c))) \<and>
     (\<forall>path\<in>set (split (CHR '','') s).
        path \<noteq> [] \<and>
        (\<forall>seg\<in>set (split (CHR ''.'') path). \<forall>c\<in>set seg.
           word_char unicode_word c \<or> c = newline))"
proof -
  assume "include_accepted unicode_word s"
  then obtain m where sm: "s = m \<or> s = m @ [newline]" and ok: "paths_ok unicode_word m"
    by (auto simp: include_accepted_iff)
  have nonempty_m: "path \<noteq> []" if "path \<in> set (split (CHR '','') m)" for path
    using ok that by (auto simp: paths_ok_def list_all_iff)
  have word_m: "word_char unicode_word c"
    if "path \<in> set (split (CHR '','') m)" "seg \<in> set (split (CHR ''.'') path)" "c \<in> set seg"
    for path seg c
  proof -
    from segment_chars[OF that] have "c \<in> set m" "c \<noteq> CHR '',''" "c \<noteq> CHR ''.''" by auto
    with paths_ok_chars[OF ok] show ?thesis by (auto simp: word_or_dot_def)
  qed
  have nonempty_s: "path \<noteq> []" if "path \<in> set (split (CHR '','') s)" for path
  proof (cases "s = m")
    case True
    then show ?thesis using that nonempty_m by simp
  next
    case False
    then have "s = m @ [newline]" using sm by simp
    then have "split (CHR '','') s =
        butlast (split (CHR '','') m) @ [last (split (CHR '','') m) @ [newline]]"
      by (simp add: split_snoc newline_def)
    then have "path \<in> set (butlast (split (CHR '','') m)) \<or> path = last (split (CHR '','') m) @ [newline]"
      using that by auto
    then show ?thesis using nonempty_m in_set_butlastD by fastforce
  qed
  have word_s: "word_char unicode_word c \<or> c = newline"
    if "path \<in> set (split (CHR '','') s)" "seg \<in> set (split (CHR ''.'') path)" "c \<in> set seg"
    for path seg c
  proof -
    from segment_chars[OF that] have c: "c \<in> set s" "c \<noteq> CHR '',''" "c \<noteq> CHR ''.''" by auto
    from c(1) sm have "c \<in> set m \<or> c = newline" by auto
    with paths_ok_chars[OF ok] c(2,3) show ?thesis by (auto simp: word_or_dot_def)
  qed
  have A: "(s = m \<or> s = m @ [newline]) \<and>
          (\<forall>path\<in>set (split (CHR '','') m).
             path \<noteq> [] \<and>
             (\<forall>seg\<in>set (split (CHR ''.'') path). \<forall>c\<in>set seg. word_char unicode_word c))"
  proof (intro conjI ballI)
    show "s = m \<or> s = m @ [newline]" by (rule sm)
  qed (rule nonempty_m, assumption, rule word_m)
  have B: "\<forall>path\<in>set (split (CHR '','') s).
        path \<noteq> [] \<and>
        (\<forall>seg\<in>set (split (CHR ''.'') path). \<forall>c\<in>set seg.
           word_char unicode_word c \<or> c = newline)"
    by (intro conjI ballI) (rule nonempty_s, assumption, rule word_s)
  from A have E: "\<exists>m. (s = m \<or> s = m @ [newline]) \<and>
          (\<forall>path\<in>set (split (CHR '','') m).
             path \<noteq> [] \<and>
             (\<forall>seg\<in>set (split (CHR ''.'') path). \<forall>c\<in>set seg. word_char unicode_word c))"
    by (rule exI)
  from E B show ?thesis by (rule conjI)
qed

theorem include_accepted_segments_witness:
  "include_accepted ascii_only ''author.publisher,comments''
   \<and> map (split (CHR ''.'')) (split (CHR '','') ''author.publisher,comments'') =
       [[''author'', ''publisher''], [''comments'']]
   \<and> (\<exists>m. (''author.publisher,comments'' = m \<or> ''author.publisher,comments'' = m @ [newline]) \<and>
          (\<forall>path\<in>set (split (CHR '','') m).
             path \<noteq> [] \<and>
             (\<forall>seg\<in>set (split (CHR ''.'') path). \<forall>c\<in>set seg. word_char ascii_only c)))"
proof -
  have acc: "include_accepted ascii_only ''author.publisher,comments''"
    by (simp add: regex_defs)
  have parse: "map (split (CHR ''.'')) (split (CHR '','') ''author.publisher,comments'') =
       [[''author'', ''publisher''], [''comments'']]"
    by simp
  from include_accepted_segments[OF acc]
  have ex: "\<exists>m. (''author.publisher,comments'' = m \<or> ''author.publisher,comments'' = m @ [newline]) \<and>
          (\<forall>path\<in>set (split (CHR '','') m).
             path \<noteq> [] \<and>
             (\<forall>seg\<in>set (split (CHR ''.'') path). \<forall>c\<in>set seg. word_char ascii_only c))"
    by (rule conjunct1)
  from acc parse ex show ?thesis by (intro conjI)
qed

end
